theory Spec2Isabelle
  imports Main "HOL-Library.Signed_Division" "HOL-Library.AList"
begin

section \<open>Utilities (src/utils.ts)\<close>

text \<open>
  JavaScript's \<^verbatim>\<open>%\<close> is the truncating remainder: its result has the sign of the
  dividend. On integers this is \<open>smod\<close> of the library theory Signed_Division.
  A zero divisor gives \<^verbatim>\<open>NaN\<close>, and so does every arithmetic on it; the model
  writes \<open>None\<close> for \<^verbatim>\<open>NaN\<close>.

  \<^verbatim>\<open>function mod(a, b) { return a >= 0 ? a % b : (a % b) + b }\<close>
  (\<^verbatim>\<open>NaN >= 0\<close> does not arise: \<open>a\<close> is an integer.)
\<close>

definition js_rem :: "int \<Rightarrow> int \<Rightarrow> int option" where
  "js_rem a b = (if b = 0 then None else Some (a smod b))"

definition mod_js :: "int \<Rightarrow> int \<Rightarrow> int option" where
  "mod_js a b =
     (if a \<ge> 0 then js_rem a b
      else (case js_rem a b of None \<Rightarrow> None | Some r \<Rightarrow> Some (r + b)))"

text \<open>
  Reading an array at a number: an index inside \<open>[0, length)\<close> gives the element,
  every other number (and \<^verbatim>\<open>NaN\<close>) gives \<^verbatim>\<open>undefined\<close>, written \<open>None\<close>.
\<close>

definition js_index :: "'a list \<Rightarrow> int option \<Rightarrow> 'a option" where
  "js_index array i =
     (case i of
        None \<Rightarrow> None
      | Some k \<Rightarrow> (if 0 \<le> k \<and> k < int (length array) then Some (array ! nat k) else None))"

text \<open>
  \<^verbatim>\<open>export function getCyclic(array, index) { return array[mod(index, array.length)] }\<close>
\<close>

definition getCyclic :: "'a list \<Rightarrow> int \<Rightarrow> 'a option" where
  "getCyclic array index = js_index array (mod_js index (int (length array)))"

section \<open>The transformation graph (src/constants/relations.js)\<close>

subsection \<open>Inverse operations\<close>

text \<open>
  Operation symbols are JavaScript strings. The template literal of the default branch
  prefixes the symbol with a tilde.
\<close>

definition getInverseOperation :: "string \<Rightarrow> string" where
  "getInverseOperation operation =
     (if operation = ''d'' \<or> operation = ''g'' then operation
      else if operation = ''+'' then ''-''
      else if operation = ''-'' then ''+''
      else ''~'' @ operation)"

subsection \<open>Objects as dictionaries\<close>

text \<open>
  The graph is a JavaScript object from solid names to objects from operation symbols to
  arrays of solid names. The own properties of an object are modelled as an association
  list in insertion order: \<open>map_of\<close> reads a property, \<open>AList.update\<close> writes one (an
  existing key keeps its place, a new key goes to the end), and the list itself is what
  \<^verbatim>\<open>Object.entries\<close> enumerates. An array element is a string, or \<^verbatim>\<open>null\<close> or
  \<^verbatim>\<open>undefined\<close> (the tables derived from the periodic table hold such entries), both
  written \<open>None\<close>.

  A plain object also inherits the properties of \<^verbatim>\<open>Object.prototype\<close>; a read of one
  of the names below does not give \<^verbatim>\<open>undefined\<close>. The graph functions are modelled for
  names outside this list (solid names are Conway notations); the reducer, whose claim
  ranges over every operation symbol, models the inherited names explicitly.
\<close>

type_synonym sink = "string option"
type_synonym operationTable = "(string \<times> sink list) list"
type_synonym graph = "(string \<times> operationTable) list"

definition objectPrototypeFunctions :: "string list" where
  "objectPrototypeFunctions =
     [''constructor'', ''__defineGetter__'', ''__defineSetter__'', ''hasOwnProperty'',
      ''__lookupGetter__'', ''__lookupSetter__'', ''isPrototypeOf'',
      ''propertyIsEnumerable'', ''toString'', ''valueOf'', ''toLocaleString'']"

definition objectPrototypeNames :: "string list" where
  "objectPrototypeNames = ''__proto__'' # objectPrototypeFunctions"

text \<open>The names a graph uses: its keys and the strings in its arrays.\<close>

definition graphNames :: "graph \<Rightarrow> string list" where
  "graphNames g =
     map fst g @ concat (map (\<lambda>(source, ops). concat (map (\<lambda>(operation, sinks).
        concat (map (\<lambda>sink. case sink of None \<Rightarrow> [] | Some s \<Rightarrow> [s]) sinks)) ops)) g)"

definition plainNames :: "graph \<Rightarrow> bool" where
  "plainNames g = (\<forall>n \<in> set (graphNames g). n \<notin> set objectPrototypeNames)"

text \<open>
  \<open>hasEdge g solid operation target\<close>: the graph maps \<open>(solid, operation)\<close> to an array
  that holds \<open>target\<close>.
\<close>

definition hasEdge :: "graph \<Rightarrow> string \<Rightarrow> string \<Rightarrow> sink \<Rightarrow> bool" where
  "hasEdge g solid operation target =
     (case map_of g solid of
        None \<Rightarrow> False
      | Some ops \<Rightarrow> (case map_of ops operation of
                      None \<Rightarrow> False
                    | Some sinks \<Rightarrow> target \<in> set sinks))"

text \<open>
  The array under \<open>(solid, operation)\<close>, empty when the graph has none; \<open>hasEdge\<close> is
  membership in it.
\<close>

definition arr_of :: "operationTable \<Rightarrow> string \<Rightarrow> sink list" where
  "arr_of ops operation = (case map_of ops operation of None \<Rightarrow> [] | Some sinks \<Rightarrow> sinks)"

definition ops_at :: "graph \<Rightarrow> string \<Rightarrow> operationTable" where
  "ops_at g solid = (case map_of g solid of None \<Rightarrow> [] | Some ops \<Rightarrow> ops)"

definition sinksOf :: "graph \<Rightarrow> string \<Rightarrow> string \<Rightarrow> sink list" where
  "sinksOf g solid operation = arr_of (ops_at g solid) operation"

text \<open>
  The targets a graph declares for \<open>(solid, operation)\<close>, in the order of its entries.
\<close>

definition declaredSinks :: "graph \<Rightarrow> string \<Rightarrow> string \<Rightarrow> sink list" where
  "declaredSinks g solid operation =
     concat (map (\<lambda>(source, ops).
                    concat (map snd (filter (\<lambda>(symbol, sinks). symbol = operation) ops)))
                 (filter (\<lambda>(source, ops). source = solid) g))"

subsection \<open>Merging graphs\<close>

text \<open>
  \<^verbatim>\<open>graphMerge(object, ...other)\<close> is lodash's \<^verbatim>\<open>mergeWith\<close> with a customizer that
  concatenates when the destination value is an array. On graphs whose leaves are arrays
  (every call after \<^verbatim>\<open>normalize\<close>) the deep merge visits each key of the source in
  order; a destination object that is missing starts as \<^verbatim>\<open>{}\<close>, a destination array that
  is missing receives a copy of the source array.
\<close>

definition mergeOperations :: "operationTable \<Rightarrow> operationTable \<Rightarrow> operationTable" where
  "mergeOperations object source =
     foldl (\<lambda>obj (operation, srcValue).
              AList.update operation
                (case map_of obj operation of
                   Some objValue \<Rightarrow> objValue @ srcValue
                 | None \<Rightarrow> srcValue) obj)
           object source"

definition graphMerge2 :: "graph \<Rightarrow> graph \<Rightarrow> graph" where
  "graphMerge2 object source =
     foldl (\<lambda>obj (key, srcValue).
              AList.update key
                (mergeOperations (case map_of obj key of Some objValue \<Rightarrow> objValue | None \<Rightarrow> [])
                   srcValue) obj)
           object source"

definition graphMerge :: "graph \<Rightarrow> graph list \<Rightarrow> graph" where
  "graphMerge object other = foldl graphMerge2 object other"

subsection \<open>The declared tables\<close>

text \<open>
  A declared table maps an operation symbol to one solid or to an array of solids;
  \<^verbatim>\<open>normalize\<close> casts every value to an array (\<^verbatim>\<open>_.castArray\<close>).
\<close>

datatype cell = Single sink | Multiple "sink list"

type_synonym table = "(string \<times> (string \<times> cell) list) list"

fun castArray :: "cell \<Rightarrow> sink list" where
  "castArray (Single value) = [value]"
| "castArray (Multiple values) = values"

definition normalize :: "table \<Rightarrow> graph" where
  "normalize g = map (\<lambda>(solid, ops). (solid, map (\<lambda>(operation, value). (operation, castArray value)) ops)) g"

definition archimedean :: table where
  "archimedean =
     [(''T'', [(''d'', Single (Some ''T'')), (''t'', Single (Some ''tT'')), (''r'', Single (Some ''O''))]),
      (''C'', [(''d'', Single (Some ''O'')), (''t'', Single (Some ''tC'')), (''r'', Single (Some ''aC'')),
               (''e'', Single (Some ''eC''))]),
      (''O'', [(''t'', Single (Some ''tO'')), (''r'', Single (Some ''aC'')), (''e'', Single (Some ''eC'')),
               (''s'', Single (Some ''I''))]),
      (''aC'', [(''t'', Single (Some ''bC'')), (''r'', Single (Some ''eC'')), (''s'', Single (Some ''sC''))]),
      (''D'', [(''d'', Single (Some ''D'')), (''t'', Single (Some ''tD'')), (''r'', Single (Some ''aD'')),
               (''e'', Single (Some ''eD''))]),
      (''I'', [(''t'', Single (Some ''tI'')), (''r'', Single (Some ''aD'')), (''e'', Single (Some ''eD''))]),
      (''aD'', [(''t'', Single (Some ''bD'')), (''r'', Single (Some ''eD'')), (''s'', Single (Some ''sD''))])]"

definition diminishedIcosahedraGraph :: table where
  "diminishedIcosahedraGraph =
     [(''J63'', [(''+'', Multiple [Some ''J62'', Some ''J64''])]),
      (''J62'', [(''+'', Single (Some ''J11''))])]"

definition rhombicosidodecahedraGraph :: table where
  "rhombicosidodecahedraGraph =
     [(''eD'', [(''g'', Single (Some ''J72'')), (''-'', Single (Some ''J76''))]),
      (''J72'', [(''g'', Multiple [Some ''J73'', Some ''J74'']),
                 (''-'', Multiple [Some ''J76'', Some ''J77'', Some ''J78''])]),
      (''J73'', [(''-'', Single (Some ''J77''))]),
      (''J74'', [(''g'', Single (Some ''J75'')), (''-'', Multiple [Some ''J78'', Some ''J79''])]),
      (''J75'', [(''-'', Multiple [Some ''J79''])]),
      (''J76'', [(''g'', Multiple [Some ''J77'', Some ''J78'']),
                 (''-'', Multiple [Some ''J80'', Some ''J81''])]),
      (''J77'', [(''-'', Single (Some ''J80''))]),
      (''J78'', [(''-'', Multiple [Some ''J81'', Some ''J82''])]),
      (''J79'', [(''-'', Multiple [Some ''J82''])]),
      (''J81'', [(''g'', Single (Some ''J82'')), (''-'', Single (Some ''J83''))]),
      (''J82'', [(''-'', Single (Some ''J83''))])]"

definition othersGraph :: table where
  "othersGraph =
     [(''T'', [(''s'', Single (Some ''J84''))]),
      (''A4'', [(''s'', Single (Some ''J85''))]),
      (''J86'', [(''+'', Single (Some ''J87''))])]"

text \<open>
  \<^verbatim>\<open>basePyramidsCupolae\<close> and \<^verbatim>\<open>baseAugmentations\<close> are computed from the periodic
  table (\<^verbatim>\<open>constants/periodicTable\<close>), which is not part of the sources at hand; the two
  tables are parameters of the base graph.
\<close>

definition baseGraph :: "table \<Rightarrow> table \<Rightarrow> graph" where
  "baseGraph basePyramidsCupolae baseAugmentations =
     graphMerge (normalize archimedean)
       (map normalize [basePyramidsCupolae, baseAugmentations, diminishedIcosahedraGraph,
                       rhombicosidodecahedraGraph, othersGraph])"

subsection \<open>The bidirectional closure\<close>

text \<open>
  The body of the innermost loop of \<^verbatim>\<open>makeBidirectional\<close>, for one \<open>sink\<close> of
  \<open>(source, operation)\<close>. A falsy sink (\<^verbatim>\<open>null\<close>, \<^verbatim>\<open>undefined\<close>, the empty string) is
  skipped. Otherwise \<open>result[sink]\<close> and \<open>result[sink][reverseOp]\<close> are created when
  missing, also for a self-loop, and the source is pushed unless \<open>sink === source\<close>.
\<close>

definition addInverse :: "string \<Rightarrow> string \<Rightarrow> graph \<Rightarrow> sink \<Rightarrow> graph" where
  "addInverse source operation result sink =
     (case sink of
        None \<Rightarrow> result
      | Some s \<Rightarrow>
          if s = [] then result
          else
            let ops = (case map_of result s of None \<Rightarrow> [] | Some existing \<Rightarrow> existing);
                reverseOp = getInverseOperation operation;
                sources = (case map_of ops reverseOp of None \<Rightarrow> [] | Some existing \<Rightarrow> existing)
            in AList.update s
                 (AList.update reverseOp
                    (if s = source then sources else sources @ [Some source]) ops)
                 result)"

definition inverseEdges :: "graph \<Rightarrow> graph" where
  "inverseEdges g =
     foldl (\<lambda>result (source, ops).
              foldl (\<lambda>result (operation, sinks).
                       foldl (addInverse source operation) result sinks)
                    result ops)
           [] g"

definition makeBidirectional :: "graph \<Rightarrow> graph" where
  "makeBidirectional g = graphMerge (inverseEdges g) [g]"

definition polyhedraGraph :: "table \<Rightarrow> table \<Rightarrow> graph" where
  "polyhedraGraph basePyramidsCupolae baseAugmentations =
     makeBidirectional (baseGraph basePyramidsCupolae baseAugmentations)"

subsection \<open>Resolving a transition\<close>

datatype js_error = TypeError | Error string | NotFoundError | MalformedPolyhedron

text \<open>
  \<^verbatim>\<open>toConwayNotation\<close> and \<^verbatim>\<open>fromConwayNotation\<close> live in \<^verbatim>\<open>constants/polyhedra\<close>,
  which is not part of the sources at hand; they are parameters, free to raise. The closed
  graph, a module constant in the source, is passed in as \<open>graph\<close>. Reading a property
  of \<^verbatim>\<open>undefined\<close> raises a \<^verbatim>\<open>TypeError\<close>; \<open>next[0]\<close> of an empty array is
  \<^verbatim>\<open>undefined\<close>.
\<close>

definition getNextPolyhedron ::
  "(string \<Rightarrow> js_error + string) \<Rightarrow> (sink \<Rightarrow> js_error + string) \<Rightarrow> graph
     \<Rightarrow> string \<Rightarrow> string \<Rightarrow> js_error + string" where
  "getNextPolyhedron toConwayNotation fromConwayNotation graph solid operation =
     (case toConwayNotation solid of
        Inl e \<Rightarrow> Inl e
      | Inr notation \<Rightarrow>
          (case map_of graph notation of
             None \<Rightarrow> Inl TypeError
           | Some ops \<Rightarrow>
               (case map_of ops operation of
                  None \<Rightarrow> Inl TypeError
                | Some next \<Rightarrow>
                    if length next > 1
                    then Inl (Error ''Cannot deal with more than one possibility right now'')
                    else fromConwayNotation (case next of [] \<Rightarrow> None | first # _ \<Rightarrow> first))))"

section \<open>The reducer (src/reducers/polyhedron.js)\<close>

text \<open>
  The state is an object with the fields \<open>name\<close> and \<open>data\<close>; the record's extension
  part stands for any further field, which the spread \<^verbatim>\<open>{ ...state, data, name }\<close>
  copies. The type \<open>'p\<close> is the type of the values held in \<open>data\<close>, \<open>'c\<close> that of an
  operation's configuration.
\<close>

record 'p state =
  name :: string
  data :: 'p

text \<open>
  An action carries its \<open>type\<close> and the fields the reducer reads for that type:
  \<^verbatim>\<open>{ type: SET_POLYHEDRON, name }\<close> and
  \<^verbatim>\<open>{ type: APPLY_OPERATION, operation, name, config }\<close>.
\<close>

datatype 'c action =
    SET_POLYHEDRON string
  | APPLY_OPERATION string string 'c
  | OtherAction

text \<open>
  The handlers \<^verbatim>\<open>augment\<close>, \<^verbatim>\<open>diminish\<close> and \<^verbatim>\<open>gyrate\<close> come from
  \<^verbatim>\<open>math/operations\<close>, \<^verbatim>\<open>isValidSolid\<close> (the membership test of the catalog of canonical
  solids) from \<^verbatim>\<open>constants/polyhedra\<close> and \<^verbatim>\<open>Polyhedron.get\<close> (the lookup in that
  catalog) from \<^verbatim>\<open>math/Polyhedron\<close>; none of them is part of the sources at hand. They
  are parameters, and those that return a polyhedron are free to raise.
  \<open>objectPrototypeCall k\<close> stands for calling the built-in function
  \<^verbatim>\<open>Object.prototype[k]\<close> on \<open>(state.data, action.config)\<close>.
\<close>

record ('p, 'c) environment =
  augment :: "'p \<Rightarrow> 'c \<Rightarrow> js_error + 'p"
  diminish :: "'p \<Rightarrow> 'c \<Rightarrow> js_error + 'p"
  gyrate :: "'p \<Rightarrow> 'c \<Rightarrow> js_error + 'p"
  objectPrototypeCall :: "string \<Rightarrow> 'p \<Rightarrow> 'c \<Rightarrow> js_error + 'p"
  isValidSolid :: "string \<Rightarrow> bool"
  Polyhedron_get :: "string \<Rightarrow> js_error + 'p"

text \<open>
  What reading a property of the object literal \<^verbatim>\<open>operations\<close> gives: \<^verbatim>\<open>undefined\<close>, a
  function, or an object that cannot be called.
\<close>

datatype ('p, 'c) property =
    Undefined
  | Function "'p \<Rightarrow> 'c \<Rightarrow> js_error + 'p"
  | NotCallable

text \<open>
  \<^verbatim>\<open>const operations = { '+': augment, '-': diminish, g: gyrate }\<close>. The literal is a
  plain object: besides its three own properties, a read finds the functions inherited
  from \<^verbatim>\<open>Object.prototype\<close>, and \<^verbatim>\<open>__proto__\<close> reads as \<^verbatim>\<open>Object.prototype\<close> itself.
\<close>

definition operations :: "('p, 'c) environment \<Rightarrow> string \<Rightarrow> ('p, 'c) property" where
  "operations env key =
     (if key = ''+'' then Function (augment env)
      else if key = ''-'' then Function (diminish env)
      else if key = ''g'' then Function (gyrate env)
      else if key \<in> set objectPrototypeFunctions then Function (objectPrototypeCall env key)
      else if key = ''__proto__'' then NotCallable
      else Undefined)"

text \<open>
  The reducer \<^verbatim>\<open>polyhedron(state = initialState, action)\<close> (the name \<open>polyhedron\<close> is
  taken by the record of polyhedra below). An absent state (\<open>None\<close>)
  takes the default \<open>initialState\<close>, a module constant passed in here. Calling a value
  that is not a function raises a \<^verbatim>\<open>TypeError\<close>.
\<close>

definition polyhedron_reducer ::
  "('p, 'c) environment \<Rightarrow> 'p state \<Rightarrow> 'p state option \<Rightarrow> 'c action \<Rightarrow> js_error + 'p state" where
  "polyhedron_reducer env initialState given action =
     (let state = (case given of None \<Rightarrow> initialState | Some s \<Rightarrow> s) in
      case action of
        SET_POLYHEDRON solidName \<Rightarrow>
          if \<not> isValidSolid env solidName then Inr state
          else (case Polyhedron_get env solidName of
                  Inl e \<Rightarrow> Inl e
                | Inr loaded \<Rightarrow> Inr (state\<lparr>data := loaded, name := solidName\<rparr>))
      | APPLY_OPERATION operation solidName config \<Rightarrow>
          (case operations env operation of
             Undefined \<Rightarrow> Inr state
           | NotCallable \<Rightarrow> Inl TypeError
           | Function handler \<Rightarrow>
               (case handler (data state) config of
                  Inl e \<Rightarrow> Inl e
                | Inr applied \<Rightarrow> Inr (state\<lparr>data := applied, name := solidName\<rparr>)))
      | OtherAction \<Rightarrow> Inr state)"

section \<open>Operation utilities (src/math/operations/operationUtils.js)\<close>

subsection \<open>Polyhedra\<close>

text \<open>
  Modelled from the spec: the class \<^verbatim>\<open>Polyhedron\<close> (\<^verbatim>\<open>math/polyhedra\<close>) is not part of
  the sources at hand. The spec describes a polyhedron as an ordered sequence of vertex
  positions, each with its index, and an ordered sequence of faces, each a cyclic sequence
  of vertex indices; a vertex or a face is a view keyed by its index. \<^verbatim>\<open>withVertices\<close>
  replaces the vertex list, \<^verbatim>\<open>withFaces\<close> and \<^verbatim>\<open>mapFaces\<close> replace the face list (the
  latter by mapping over the faces of the polyhedron the change started from),
  \<^verbatim>\<open>addFaces\<close> appends faces, and everything else is kept: the record's extension part.
  The type \<open>'v\<close> is that of a vertex position.
\<close>

record 'v polyhedron =
  vertices :: "'v list"
  faces :: "nat list list"

text \<open>
  A face that names a vertex the polyhedron does not have is the spec's
  \<^verbatim>\<open>MalformedPolyhedron\<close>; the utilities are modelled on polyhedra without such a face
  and answer \<open>Inl MalformedPolyhedron\<close> otherwise. The same value stands for a result
  whose face lists would hold \<^verbatim>\<open>undefined\<close>.
\<close>

definition validFaces :: "('v, 'x) polyhedron_scheme \<Rightarrow> bool" where
  "validFaces p = (\<forall>face \<in> set (faces p). \<forall>v \<in> set face. v < length (vertices p))"

subsection \<open>Lodash helpers\<close>

definition takeRight :: "nat \<Rightarrow> 'a list \<Rightarrow> 'a list" where
  "takeRight n xs = drop (length xs - n) xs"

definition dropRight :: "nat \<Rightarrow> 'a list \<Rightarrow> 'a list" where
  "dropRight n xs = take (length xs - n) xs"

text \<open>\<^verbatim>\<open>_.get(object, key, default)\<close> on an object with numeric keys.\<close>

definition get :: "(nat \<times> nat) list \<Rightarrow> nat \<Rightarrow> nat \<Rightarrow> nat" where
  "get object key fallback = (case map_of object key of None \<Rightarrow> fallback | Some found \<Rightarrow> found)"

text \<open>\<^verbatim>\<open>_.invert\<close>: values become keys; on equal values the later pair wins.\<close>

definition invert :: "(nat \<times> nat) list \<Rightarrow> (nat \<times> nat) list" where
  "invert object = foldl (\<lambda>result (key, value). AList.update value key result) [] object"

text \<open>\<^verbatim>\<open>_.fromPairs\<close>: on equal keys the later pair wins.\<close>

definition fromPairs :: "(nat \<times> nat) list \<Rightarrow> (nat \<times> nat) list" where
  "fromPairs pairs = foldl (\<lambda>result (key, value). AList.update key value result) [] pairs"

text \<open>\<^verbatim>\<open>_.uniq\<close>: the first occurrence of every value, in order.\<close>

definition uniq :: "'a list \<Rightarrow> 'a list" where
  "uniq xs = foldl (\<lambda>seen x. if x \<in> set seen then seen else seen @ [x]) [] xs"

subsection \<open>removeExtraneousVertices\<close>

text \<open>
  Vertices are handled by their indices.
  \<^verbatim>\<open>vertsInFaces = _.flatMap(polyhedron.faces, 'vertices')\<close>,
  \<^verbatim>\<open>toRemove = _.filter(polyhedron.vertices, v => !v.inSet(vertsInFaces))\<close>, and
  \<^verbatim>\<open>newToOld\<close> takes the last \<open>numToRemove\<close> vertices, keeps those not in \<open>toRemove\<close>
  and pairs the \<open>i\<close>-th of them with \<open>toRemove[i]\<close>: a \<open>zip\<close>, since the trailing
  vertices that stay never outnumber the removed ones. \<open>oldToNew\<close> is its inverse; the
  new vertex list reads every slot through \<open>oldToNew\<close> and drops the last \<open>numToRemove\<close>
  slots, the faces are read through \<open>newToOld\<close>.
\<close>

definition vertsInFaces :: "('v, 'x) polyhedron_scheme \<Rightarrow> nat list" where
  "vertsInFaces p = concat (faces p)"

definition toRemove :: "('v, 'x) polyhedron_scheme \<Rightarrow> nat list" where
  "toRemove p = filter (\<lambda>v. v \<notin> set (vertsInFaces p)) [0..<length (vertices p)]"

definition newToOld :: "('v, 'x) polyhedron_scheme \<Rightarrow> (nat \<times> nat) list" where
  "newToOld p =
     fromPairs (zip (filter (\<lambda>v. v \<notin> set (toRemove p))
                       (takeRight (length (toRemove p)) [0..<length (vertices p)]))
                    (toRemove p))"

definition removeExtraneousVertices ::
  "('v, 'x) polyhedron_scheme \<Rightarrow> js_error + ('v, 'x) polyhedron_scheme" where
  "removeExtraneousVertices p =
     (if \<not> validFaces p then Inl MalformedPolyhedron
      else
        let numToRemove = length (toRemove p);
            oldToNew = invert (newToOld p);
            newVertices = dropRight numToRemove
              (map (\<lambda>v. vertices p ! get oldToNew v v) [0..<length (vertices p)])
        in Inr (p\<lparr>vertices := newVertices,
                  faces := map (\<lambda>face. map (\<lambda>v. get (newToOld p) v v) face) (faces p)\<rparr>))"

subsection \<open>deduplicateVertices\<close>

text \<open>
  \<open>eq\<close> stands for \<^verbatim>\<open>v.vec.equalsWithTolerance(point.vec, PRECISION)\<close> of
  \<^verbatim>\<open>math/linAlg\<close>, which is not part of the sources at hand. The loop keeps the indices
  of the vertices found unique so far and, as a list indexed by the old index, the map
  \<open>oldToNew\<close>: a vertex that matches none of the unique ones (\<^verbatim>\<open>_.find\<close>, the first
  match) joins them and maps to itself, any other maps to its match. The new faces are
  \<^verbatim>\<open>_.uniq(face.vertices.map(v => oldToNew[v.index]))\<close>, those of length at least 3.
\<close>

definition dedupStep ::
  "('v \<Rightarrow> 'v \<Rightarrow> bool) \<Rightarrow> 'v list \<Rightarrow> nat list \<times> nat list \<Rightarrow> nat \<Rightarrow> nat list \<times> nat list" where
  "dedupStep eq vs state vIndex =
     (case state of (unique, oldToNew) \<Rightarrow>
        (case find (\<lambda>point. eq (vs ! vIndex) (vs ! point)) unique of
           None \<Rightarrow> (unique @ [vIndex], oldToNew @ [vIndex])
         | Some match \<Rightarrow> (unique, oldToNew @ [match])))"

definition dedupLoop :: "('v \<Rightarrow> 'v \<Rightarrow> bool) \<Rightarrow> 'v list \<Rightarrow> nat list \<times> nat list" where
  "dedupLoop eq vs = foldl (dedupStep eq vs) ([], []) [0..<length vs]"

definition deduplicateVertices ::
  "('v \<Rightarrow> 'v \<Rightarrow> bool) \<Rightarrow> ('v, 'x) polyhedron_scheme \<Rightarrow> js_error + ('v, 'x) polyhedron_scheme" where
  "deduplicateVertices eq p =
     (if \<not> validFaces p then Inl MalformedPolyhedron
      else
        let oldToNew = snd (dedupLoop eq (vertices p));
            newFaces = filter (\<lambda>vIndices. length vIndices \<ge> 3)
                         (map (\<lambda>face. uniq (map (\<lambda>v. oldToNew ! v) face)) (faces p))
        in removeExtraneousVertices (p\<lparr>faces := newFaces\<rparr>))"

subsection \<open>duplicateVertices\<close>

text \<open>
  Modelled from the spec: the adjacency that the class \<^verbatim>\<open>Polyhedron\<close> derives from the
  faces is not part of the sources at hand. The spec lists, as derived data, the edges
  (pairs of adjacent vertices, each edge knowing its two adjacent faces) and the index from
  a vertex to its adjacent faces, and leaves their order open. They are taken as given:
  \<open>adjacentFaces v\<close> is \<^verbatim>\<open>v.adjacentFaces()\<close> as face indices, an edge is the pair of its
  vertex indices with the pair of the indices of its adjacent faces, and \<open>getVertex\<close> is
  the index of the vertex that \<^verbatim>\<open>polyhedron.getVertex()\<close> returns.
\<close>

type_synonym edge = "(nat \<times> nat) \<times> (nat \<times> nat)"

record adjacency =
  getVertex :: nat
  adjacentFaces :: "nat \<Rightarrow> nat list"
  edges :: "edge list"

text \<open>
  The adjacency fits the polyhedron: the adjacent faces of a vertex are the faces that
  name it, each once, and an edge joins two different vertices that both of its two
  different faces name.
\<close>

definition consistent :: "('v, 'x) polyhedron_scheme \<Rightarrow> adjacency \<Rightarrow> bool" where
  "consistent p adj =
     ((\<forall>v \<in> set [0..<length (vertices p)].
          distinct (adjacentFaces adj v)
          \<and> set (adjacentFaces adj v)
              = set (filter (\<lambda>f. v \<in> set (faces p ! f)) [0..<length (faces p)]))
      \<and> (\<forall>e \<in> set (edges adj).
            (case e of ((v1, v2), (f1, f2)) \<Rightarrow>
               v1 \<noteq> v2 \<and> f1 \<noteq> f2 \<and> f1 < length (faces p) \<and> f2 < length (faces p)
               \<and> v1 \<in> set (faces p ! f1) \<and> v2 \<in> set (faces p ! f1)
               \<and> v1 \<in> set (faces p ! f2) \<and> v2 \<in> set (faces p ! f2))))"

text \<open>The position of the first occurrence of a value (the length when there is none).\<close>

definition position :: "'a \<Rightarrow> 'a list \<Rightarrow> nat" where
  "position x xs = length (takeWhile (\<lambda>y. y \<noteq> x) xs)"

text \<open>An array with the index of each element: the \<open>(value, index)\<close> of a lodash callback.\<close>

definition indexed :: "'a list \<Rightarrow> (nat \<times> 'a) list" where
  "indexed xs = zip [0..<length xs] xs"

text \<open>
  \<^verbatim>\<open>getEdgeFacePaths(edge, twist)\<close>: the paths \<open>[face, vertex]\<close> of the bridging faces.
  The twist is \<^verbatim>\<open>'left'\<close>, \<^verbatim>\<open>'right'\<close> or absent (\<open>None\<close>).
\<close>

definition getEdgeFacePaths :: "edge \<Rightarrow> string option \<Rightarrow> (nat \<times> nat) list list" where
  "getEdgeFacePaths edge twist =
     (case edge of ((v1, v2), (f1, f2)) \<Rightarrow>
        if twist = Some ''right'' then
          [[(f1, v1), (f2, v2), (f1, v2)],
           [(f1, v1), (f2, v1), (f2, v2)]]
        else if twist = Some ''left'' then
          [[(f1, v2), (f1, v1), (f2, v1)],
           [(f2, v1), (f2, v2), (f1, v2)]]
        else [[(f1, v2), (f1, v1), (f2, v1), (f2, v2)]])"

text \<open>
  \<open>newVertexMapping\<close>, keyed by the path \<open>[f.index, v.index]\<close>: the outer loop runs over the
  vertices, the inner one over the adjacent faces of the vertex with their positions.
\<close>

definition newVertexMapping :: "adjacency \<Rightarrow> nat \<Rightarrow> nat \<Rightarrow> ((nat \<times> nat) \<times> nat) list" where
  "newVertexMapping adj n count =
     foldl (\<lambda>mapping v.
              foldl (\<lambda>mapping (i, f). AList.update (f, v) (v * count + i) mapping)
                    mapping (indexed (adjacentFaces adj v)))
           [] [0..<n]"

text \<open>
  Reading the mapping along a list of paths. A path without an entry reads as
  \<^verbatim>\<open>undefined\<close>; the face is then no list of vertex indices, and the result is \<open>None\<close>.
\<close>

definition readPaths :: "((nat \<times> nat) \<times> nat) list \<Rightarrow> (nat \<times> nat) list \<Rightarrow> nat list option" where
  "readPaths mapping paths = those (map (map_of mapping) paths)"

text \<open>
  \<open>duplicateVertices\<close>. Without a vertex to start from, \<^verbatim>\<open>getVertex()\<close> has nothing to
  call \<^verbatim>\<open>adjacentFaces\<close> on, a \<^verbatim>\<open>TypeError\<close>. The new faces are the old ones read through
  the mapping, one face per vertex over the range of its duplicates, and the bridging
  faces of every edge.
\<close>

definition duplicateVertices ::
  "adjacency \<Rightarrow> ('v, 'x) polyhedron_scheme \<Rightarrow> string option
     \<Rightarrow> js_error + ('v, 'x) polyhedron_scheme" where
  "duplicateVertices adj p twist =
     (if \<not> validFaces p then Inl MalformedPolyhedron
      else if getVertex adj \<ge> length (vertices p) then Inl TypeError
      else
        let count = length (adjacentFaces adj (getVertex adj));
            mapping = newVertexMapping adj (length (vertices p)) count;
            mapped = those (map (\<lambda>(f, face). readPaths mapping (map (\<lambda>v. (f, v)) face))
                              (indexed (faces p)));
            figures = map (\<lambda>v. [v * count..<(v + 1) * count]) [0..<length (vertices p)];
            bridges = those (map (readPaths mapping)
                               (concat (map (\<lambda>edge. getEdgeFacePaths edge twist) (edges adj))))
        in case (mapped, bridges) of
             (Some mappedFaces, Some bridgeFaces) \<Rightarrow>
               Inr (p\<lparr>vertices := concat (map (replicate count) (vertices p)),
                       faces := mappedFaces @ figures @ bridgeFaces\<rparr>)
           | _ \<Rightarrow> Inl MalformedPolyhedron)"

text \<open>
  The duplicate of vertex \<open>v\<close> that the mapping gives to face \<open>f\<close>: the \<open>i\<close>-th of the
  \<open>count\<close> copies of \<open>v\<close>, where \<open>f\<close> is the \<open>i\<close>-th adjacent face of \<open>v\<close>.
\<close>

definition duplicateOf :: "adjacency \<Rightarrow> nat \<Rightarrow> nat \<Rightarrow> nat \<Rightarrow> nat" where
  "duplicateOf adj count f v = v * count + position f (adjacentFaces adj v)"

subsection \<open>The structural invariants\<close>

text \<open>
  The edges of a face join each vertex to the next one, the last to the first. An edge
  belongs to a face in either direction.
\<close>

definition faceEdges :: "'a list \<Rightarrow> ('a \<times> 'a) list" where
  "faceEdges face = zip face (rotate1 face)"

definition edgeInFace :: "'a \<times> 'a \<Rightarrow> 'a list \<Rightarrow> bool" where
  "edgeInFace e face = (e \<in> set (faceEdges face) \<or> (snd e, fst e) \<in> set (faceEdges face))"

definition facesAtEdge :: "'a list list \<Rightarrow> 'a \<times> 'a \<Rightarrow> nat" where
  "facesAtEdge fs e = length (filter (edgeInFace e) fs)"

definition closedManifold :: "('v, 'x) polyhedron_scheme \<Rightarrow> bool" where
  "closedManifold p =
     (\<forall>face \<in> set (faces p). \<forall>e \<in> set (faceEdges face). facesAtEdge (faces p) e = 2)"

definition threeDistinct :: "('v, 'x) polyhedron_scheme \<Rightarrow> bool" where
  "threeDistinct p = (\<forall>face \<in> set (faces p). 3 \<le> length (remdups face))"

text \<open>
  The invariants of the spec. That the vertex indices are contiguous from 0 is the
  vertex list itself: its indices are \<open>0, \<dots>, length - 1\<close>.
\<close>

definition wellFormed :: "('v, 'x) polyhedron_scheme \<Rightarrow> bool" where
  "wellFormed p = (validFaces p \<and> threeDistinct p \<and> closedManifold p)"

subsection \<open>Adjacency in cyclic order\<close>

text \<open>
  What \<open>consistent\<close> leaves open. The edge list of the adjacency is the list of the edges
  of the faces: every entry is an edge of both of its faces, and every edge of a face has
  exactly one entry, in one of its two directions. The adjacent faces of a vertex come in
  cyclic order around it: the two faces of an edge are neighbours in the list of either
  end, and two neighbours in the list of a vertex share exactly one edge at that vertex.
\<close>

definition sameEdge :: "'a \<times> 'a \<Rightarrow> 'a \<times> 'a \<Rightarrow> bool" where
  "sameEdge e e' = (e' = e \<or> e' = (snd e, fst e))"

definition coherent :: "('v, 'x) polyhedron_scheme \<Rightarrow> adjacency \<Rightarrow> bool" where
  "coherent p adj =
     ((\<forall>e \<in> set (edges adj).
         (case e of ((v1, v2), (f1, f2)) \<Rightarrow>
            edgeInFace (v1, v2) (faces p ! f1) \<and> edgeInFace (v1, v2) (faces p ! f2)
            \<and> edgeInFace (f1, f2) (adjacentFaces adj v1)
            \<and> edgeInFace (f1, f2) (adjacentFaces adj v2)))
      \<and> (\<forall>face \<in> set (faces p). \<forall>ab \<in> set (faceEdges face).
            length (filter (\<lambda>e. sameEdge ab (fst e)) (edges adj)) = 1)
      \<and> (\<forall>v \<in> set [0..<length (vertices p)]. \<forall>gg \<in> set (faceEdges (adjacentFaces adj v)).
            length (filter (\<lambda>e. (fst (fst e) = v \<or> snd (fst e) = v) \<and> sameEdge gg (snd e))
                      (edges adj)) = 1))"

text \<open>
  The faces of the result of \<open>duplicateVertices\<close> as the paths \<open>[face, vertex]\<close> they are read
  from: the old faces, the faces of the vertices and the bridging faces.
\<close>

definition facePaths :: "('v, 'x) polyhedron_scheme \<Rightarrow> (nat \<times> nat) list list" where
  "facePaths p = map (\<lambda>f. map (\<lambda>v. (f, v)) (faces p ! f)) [0..<length (faces p)]"

definition vertexPaths :: "adjacency \<Rightarrow> nat \<Rightarrow> (nat \<times> nat) list list" where
  "vertexPaths adj n = map (\<lambda>v. map (\<lambda>f. (f, v)) (adjacentFaces adj v)) [0..<n]"

definition bridgePaths :: "adjacency \<Rightarrow> string option \<Rightarrow> (nat \<times> nat) list list" where
  "bridgePaths adj twist = concat (map (\<lambda>edge. getEdgeFacePaths edge twist) (edges adj))"

definition allPaths ::
  "('v, 'x) polyhedron_scheme \<Rightarrow> adjacency \<Rightarrow> string option \<Rightarrow> (nat \<times> nat) list list" where
  "allPaths p adj twist
     = facePaths p @ vertexPaths adj (length (vertices p)) @ bridgePaths adj twist"

subsection \<open>Example polyhedra\<close>

text \<open>
  The square pyramid: base vertices 0 to 3, apex 4; face 0 is the base. Its adjacency
  lists the faces around each vertex in cyclic order and starts from vertex 0.
\<close>

definition squarePyramid :: "string polyhedron" where
  "squarePyramid =
     \<lparr>vertices = [''b0'', ''b1'', ''b2'', ''b3'', ''apex''],
      faces = [[3, 2, 1, 0], [0, 1, 4], [1, 2, 4], [2, 3, 4], [3, 0, 4]]\<rparr>"

definition squarePyramidAdjacency :: adjacency where
  "squarePyramidAdjacency =
     \<lparr>getVertex = 0,
      adjacentFaces = (\<lambda>v. if v = 0 then [0, 1, 4] else if v = 1 then [0, 2, 1]
                           else if v = 2 then [0, 3, 2] else if v = 3 then [0, 4, 3]
                           else [1, 2, 3, 4]),
      edges = [((0, 1), (0, 1)), ((1, 2), (0, 2)), ((2, 3), (0, 3)), ((3, 0), (0, 4)),
               ((0, 4), (4, 1)), ((1, 4), (1, 2)), ((2, 4), (2, 3)), ((3, 4), (3, 4))]\<rparr>"

text \<open>The tetrahedron, every vertex on three faces.\<close>

definition tetrahedron :: "string polyhedron" where
  "tetrahedron =
     \<lparr>vertices = [''a'', ''b'', ''c'', ''d''],
      faces = [[0, 1, 2], [0, 3, 1], [0, 2, 3], [1, 3, 2]]\<rparr>"

definition tetrahedronAdjacency :: adjacency where
  "tetrahedronAdjacency =
     \<lparr>getVertex = 0,
      adjacentFaces = (\<lambda>v. if v = 0 then [0, 1, 2] else if v = 1 then [0, 3, 1]
                           else if v = 2 then [0, 2, 3] else [1, 3, 2]),
      edges = [((0, 1), (0, 1)), ((0, 2), (0, 2)), ((0, 3), (1, 2)),
               ((1, 2), (0, 3)), ((1, 3), (1, 3)), ((2, 3), (2, 3))]\<rparr>"

text \<open>
  An octahedron squeezed flat: the square \<open>0, 1, 2, 3\<close> with both apexes, 4 and 5, at the
  same place.
\<close>

definition flatOctahedron :: "nat polyhedron" where
  "flatOctahedron =
     \<lparr>vertices = [0, 1, 2, 3, 7, 7],
      faces = [[0, 1, 4], [1, 2, 4], [2, 3, 4], [3, 0, 4],
               [1, 0, 5], [2, 1, 5], [3, 2, 5], [0, 3, 5]]\<rparr>"

text \<open>
  The octahedron, every vertex on four faces, with two adjacencies over the same edges:
  one lists the faces around each vertex in cyclic order, the other by ascending index.
\<close>

definition octahedron :: "string polyhedron" where
  "octahedron =
     \<lparr>vertices = [''e0'', ''e1'', ''e2'', ''e3'', ''top'', ''bottom''],
      faces = [[0, 1, 4], [1, 2, 4], [2, 3, 4], [3, 0, 4],
               [1, 0, 5], [2, 1, 5], [3, 2, 5], [0, 3, 5]]\<rparr>"

definition octahedronEdges :: "edge list" where
  "octahedronEdges =
     [((0, 1), (0, 4)), ((1, 2), (1, 5)), ((2, 3), (2, 6)), ((3, 0), (3, 7)),
      ((0, 4), (0, 3)), ((1, 4), (0, 1)), ((2, 4), (1, 2)), ((3, 4), (2, 3)),
      ((0, 5), (4, 7)), ((1, 5), (4, 5)), ((2, 5), (5, 6)), ((3, 5), (6, 7))]"

definition octahedronAdjacency :: adjacency where
  "octahedronAdjacency =
     \<lparr>getVertex = 0,
      adjacentFaces = (\<lambda>v. if v = 0 then [0, 3, 7, 4] else if v = 1 then [0, 1, 5, 4]
                           else if v = 2 then [1, 2, 6, 5] else if v = 3 then [2, 3, 7, 6]
                           else if v = 4 then [0, 1, 2, 3] else [4, 5, 6, 7]),
      edges = octahedronEdges\<rparr>"

definition octahedronSortedAdjacency :: adjacency where
  "octahedronSortedAdjacency =
     \<lparr>getVertex = 0,
      adjacentFaces = (\<lambda>v. if v = 0 then [0, 3, 4, 7] else if v = 1 then [0, 1, 4, 5]
                           else if v = 2 then [1, 2, 5, 6] else if v = 3 then [2, 3, 6, 7]
                           else if v = 4 then [0, 1, 2, 3] else [4, 5, 6, 7]),
      edges = octahedronEdges\<rparr>"

text \<open>
  The dihedron: two triangles back to back, every vertex on two faces, every edge on
  both.
\<close>

definition dihedron :: "string polyhedron" where
  "dihedron = \<lparr>vertices = [''a'', ''b'', ''c''], faces = [[0, 1, 2], [2, 1, 0]]\<rparr>"

definition dihedronAdjacency :: adjacency where
  "dihedronAdjacency =
     \<lparr>getVertex = 0, adjacentFaces = (\<lambda>v. [0, 1]),
      edges = [((0, 1), (0, 1)), ((1, 2), (0, 1)), ((2, 0), (0, 1))]\<rparr>"

section \<open>Properties\<close>

subsection \<open>getCyclic\<close>

lemma mod_js_nonneg:
  assumes "0 \<le> a" "0 < b"
  shows "mod_js a b = Some (a mod b)"
proof (cases "a = 0")
  case True
  then show ?thesis using assms by (simp add: mod_js_def js_rem_def signed_modulo_int_def)
next
  case False
  then have "sgn a = 1" "\<bar>a\<bar> = a" "\<bar>b\<bar> = b" using assms by simp_all
  then show ?thesis using assms by (simp add: mod_js_def js_rem_def signed_modulo_int_def)
qed

lemma mod_js_neg:
  assumes "a < 0" "0 < b"
  shows "mod_js a b = Some (if b dvd a then b else a mod b)"
proof -
  have abs_a: "\<bar>a\<bar> = - a" using assms by simp
  have abs_b: "\<bar>b\<bar> = b" using assms by simp
  have rem: "a smod b = - ((- a) mod b)"
    using assms by (simp add: signed_modulo_int_def abs_a abs_b)
  show ?thesis
  proof (cases "b dvd a")
    case True
    then have "(- a) mod b = 0" by simp
    with rem assms True show ?thesis by (simp add: mod_js_def js_rem_def)
  next
    case False
    then have "(- a) mod b = b - a mod b"
      using assms by (simp add: zmod_zminus1_eq_if mod_eq_0_iff_dvd)
    with rem assms False show ?thesis by (simp add: mod_js_def js_rem_def)
  qed
qed

text \<open>
  Away from the negative multiples of the length, \<open>getCyclic\<close> is the element at the
  index reduced modulo the length.
\<close>

lemma getCyclic_in_range:
  assumes "array \<noteq> []" and "0 \<le> index \<or> \<not> int (length array) dvd index"
  shows "getCyclic array index = Some (array ! nat (index mod int (length array)))"
proof -
  have len: "0 < int (length array)" using assms(1) by simp
  show ?thesis
  proof (cases "0 \<le> index")
    case True
    then show ?thesis
      using len by (simp add: getCyclic_def js_index_def mod_js_nonneg)
  next
    case False
    then have "index < 0" and "\<not> int (length array) dvd index" using assms(2) by auto
    then show ?thesis
      using len by (simp add: getCyclic_def js_index_def mod_js_neg)
  qed
qed

text \<open>
  Claim C10. For a non-empty array and any integer index, \<open>getCyclic\<close> is said to return
  the element at the index reduced modulo the length, the out-of-range read being
  unreachable. At a negative multiple of the length the helper \<open>mod\<close> returns the length
  itself (\<^verbatim>\<open>-3 % 3\<close> is \<^verbatim>\<open>-0\<close>, and \<^verbatim>\<open>-0 + 3\<close> is \<^verbatim>\<open>3\<close>), so the read is out of
  range and the result is \<^verbatim>\<open>undefined\<close>.
\<close>

theorem getCyclic_negative_multiple:
  "mod_js (- 3) 3 = Some 3 \<and> getCyclic [''a'', ''b'', ''c''] (- 3) = None"
  by (simp add: getCyclic_def js_index_def mod_js_def js_rem_def signed_modulo_int_def)

subsection \<open>getInverseOperation\<close>

text \<open>
  Claim C7. \<open>getInverseOperation\<close> maps \<open>d\<close> to \<open>d\<close> and \<open>g\<close> to \<open>g\<close>, swaps \<open>+\<close> and
  \<open>-\<close>, and maps every other symbol to a reversed tag (the symbol behind a tilde) that
  differs from the symbol, from the four special symbols and their images, and from
  the reversed tag of every other symbol.
\<close>

theorem getInverseOperation_cases:
  "getInverseOperation ''d'' = ''d''
   \<and> getInverseOperation ''g'' = ''g''
   \<and> getInverseOperation ''+'' = ''-''
   \<and> getInverseOperation ''-'' = ''+''
   \<and> (\<forall>op. op \<notin> {''d'', ''g'', ''+'', ''-''} \<longrightarrow>
         getInverseOperation op = ''~'' @ op
         \<and> getInverseOperation op \<noteq> op
         \<and> getInverseOperation op \<notin> {''d'', ''g'', ''+'', ''-''}
         \<and> (\<forall>op'. op' \<noteq> op \<longrightarrow> getInverseOperation op' \<noteq> getInverseOperation op))"
  by (auto simp: getInverseOperation_def)

theorem getInverseOperation_cases_witness:
  "''t'' \<notin> {''d'', ''g'', ''+'', ''-''}
   \<and> getInverseOperation ''t'' = ''~t''
   \<and> ''r'' \<noteq> ''t'' \<and> getInverseOperation ''r'' \<noteq> getInverseOperation ''t''"
proof -
  have "''t'' \<notin> {''d'', ''g'', ''+'', ''-''}" and "''r'' \<noteq> ''t''" by simp_all
  then show ?thesis using getInverseOperation_cases by auto
qed

subsection \<open>The bidirectional closure\<close>

text \<open>Two facts about a left fold: a property every step keeps, and one some step sets up.\<close>

lemma hasEdge_sinksOf: "hasEdge g a op b \<longleftrightarrow> b \<in> set (sinksOf g a op)"
  by (simp add: hasEdge_def sinksOf_def arr_of_def ops_at_def split: option.splits)

lemma foldl_preserve:
  assumes "P a" and "\<And>acc y. P acc \<Longrightarrow> P (f acc y)"
  shows "P (foldl f a xs)"
  using assms(1) by (induction xs arbitrary: a) (simp_all add: assms(2))

lemma foldl_establish:
  assumes "x \<in> set xs" and "\<And>acc. P (f acc x)" and "\<And>acc y. P acc \<Longrightarrow> P (f acc y)"
  shows "P (foldl f a xs)"
  using assms(1)
proof (induction xs arbitrary: a)
  case Nil then show ?case by simp
next
  case (Cons y ys)
  show ?case
  proof (cases "x = y")
    case True
    have "P (f a y)" using True assms(2) by simp
    then show ?thesis by (simp add: foldl_preserve assms(3))
  next
    case False
    then show ?thesis using Cons by simp
  qed
qed

lemma sinksOf_update:
  "sinksOf (AList.update k (AList.update op arr ops) g) a b =
     (if a = k then (if b = op then arr else arr_of ops b) else sinksOf g a b)"
  by (simp add: sinksOf_def ops_at_def arr_of_def update_conv')

lemma addInverse_mono:
  "set (sinksOf result a b) \<subseteq> set (sinksOf (addInverse source operation result sink) a b)"
  by (auto simp: addInverse_def Let_def sinksOf_update split: option.splits)
     (auto simp: sinksOf_def ops_at_def arr_of_def split: option.splits)

lemma addInverse_adds:
  assumes "s \<noteq> []" "s \<noteq> source"
  shows "Some source \<in> set (sinksOf (addInverse source operation result (Some s)) s (getInverseOperation operation))"
  using assms by (simp add: addInverse_def Let_def sinksOf_update)

lemma arr_of_update:
  "arr_of (AList.update k v ops) b = (if b = k then v else arr_of ops b)"
  by (simp add: arr_of_def update_conv')

lemma ops_at_update:
  "ops_at (AList.update k v g) a = (if a = k then v else ops_at g a)"
  by (simp add: ops_at_def update_conv')

lemma concat_case_arr_of:
  "(case map_of obj k of Some v \<Rightarrow> v @ src | None \<Rightarrow> src) = arr_of obj k @ src"
  by (simp add: arr_of_def split: option.splits)

lemma case_ops_at:
  "(case map_of g k of Some v \<Rightarrow> v | None \<Rightarrow> []) = ops_at g k"
  by (simp add: ops_at_def split: option.splits)

lemma inverseEdges_adds:
  assumes "(source, ops) \<in> set g" "(operation, sinks) \<in> set ops" "Some s \<in> set sinks"
    and "s \<noteq> []" "s \<noteq> source"
  shows "Some source \<in> set (sinksOf (inverseEdges g) s (getInverseOperation operation))"
proof -
  let ?P = "\<lambda>result. Some source \<in> set (sinksOf result s (getInverseOperation operation))"
  have step: "?P acc \<Longrightarrow> ?P (addInverse src opn acc y)" for acc src opn y
    using addInverse_mono by blast
  have inner: "?P acc \<Longrightarrow> ?P (foldl (addInverse src opn) acc ys)" for acc src opn ys
    by (rule foldl_preserve) (auto intro: step)
  have middle: "?P acc \<Longrightarrow>
      ?P (foldl (\<lambda>result (opn, ys). foldl (addInverse src opn) result ys) acc os)" for acc src os
    by (rule foldl_preserve) (auto intro: inner)
  have here_inner: "?P (foldl (addInverse source operation) acc sinks)" for acc
  proof (rule foldl_establish [OF assms(3)])
    show "?P (addInverse source operation acc' (Some s))" for acc'
      by (rule addInverse_adds [OF assms(4,5)])
  qed (rule step)
  have here_middle:
    "?P (foldl (\<lambda>result (opn, ys). foldl (addInverse source opn) result ys) acc ops)" for acc
    by (rule foldl_establish [OF assms(2)]) (auto intro: here_inner inner)
  show ?thesis
    unfolding inverseEdges_def
    by (rule foldl_establish [OF assms(1)]) (auto intro: here_middle middle)
qed

lemma arr_of_mergeOperations_object:
  "set (arr_of object b) \<subseteq> set (arr_of (mergeOperations object source) b)"
  unfolding mergeOperations_def
  by (rule foldl_preserve) (auto simp: arr_of_update concat_case_arr_of)

lemma arr_of_mergeOperations_source:
  assumes "(b, arr) \<in> set source"
  shows "set arr \<subseteq> set (arr_of (mergeOperations object source) b)"
  unfolding mergeOperations_def
  by (rule foldl_establish [OF assms]) (auto simp: arr_of_update concat_case_arr_of)

lemma sinksOf_graphMerge2_object:
  "set (sinksOf object a b) \<subseteq> set (sinksOf (graphMerge2 object source) a b)"
  unfolding graphMerge2_def
proof (rule foldl_preserve)
  show "set (sinksOf object a b) \<subseteq> set (sinksOf object a b)" by simp
next
  fix acc :: graph and y :: "string \<times> operationTable"
  assume h: "set (sinksOf object a b) \<subseteq> set (sinksOf acc a b)"
  obtain key srcValue where y: "y = (key, srcValue)" by (cases y)
  have "set (sinksOf acc a b) \<subseteq> set (sinksOf (AList.update key
          (mergeOperations (ops_at acc key) srcValue) acc) a b)"
    using arr_of_mergeOperations_object [of "ops_at acc key" b srcValue]
    by (simp add: sinksOf_def ops_at_update)
  with h show "set (sinksOf object a b) \<subseteq> set (sinksOf (case y of (key, srcValue) \<Rightarrow>
          AList.update key (mergeOperations (case map_of acc key of Some objValue \<Rightarrow> objValue | None \<Rightarrow> []) srcValue) acc) a b)"
    by (auto simp: y case_ops_at)
qed

lemma sinksOf_graphMerge2_source:
  assumes "(a, ops) \<in> set source" "(b, arr) \<in> set ops"
  shows "set arr \<subseteq> set (sinksOf (graphMerge2 object source) a b)"
  unfolding graphMerge2_def
proof (rule foldl_establish [OF assms(1)])
  fix acc :: graph
  show "set arr \<subseteq> set (sinksOf (case (a, ops) of (key, srcValue) \<Rightarrow>
          AList.update key (mergeOperations (case map_of acc key of Some objValue \<Rightarrow> objValue | None \<Rightarrow> []) srcValue) acc) a b)"
    using arr_of_mergeOperations_source [OF assms(2), of "ops_at acc a"]
    by (simp add: sinksOf_def ops_at_update case_ops_at)
next
  fix acc :: graph and y :: "string \<times> operationTable"
  assume h: "set arr \<subseteq> set (sinksOf acc a b)"
  obtain key srcValue where y: "y = (key, srcValue)" by (cases y)
  have "set (sinksOf acc a b) \<subseteq> set (sinksOf (AList.update key
          (mergeOperations (ops_at acc key) srcValue) acc) a b)"
    using arr_of_mergeOperations_object [of "ops_at acc key" b srcValue]
    by (simp add: sinksOf_def ops_at_update)
  with h show "set arr \<subseteq> set (sinksOf (case y of (key, srcValue) \<Rightarrow>
          AList.update key (mergeOperations (case map_of acc key of Some objValue \<Rightarrow> objValue | None \<Rightarrow> []) srcValue) acc) a b)"
    by (auto simp: y case_ops_at)
qed

lemma hasEdge_entries:
  assumes "hasEdge g a b t"
  shows "\<exists>ops arr. (a, ops) \<in> set g \<and> (b, arr) \<in> set ops \<and> t \<in> set arr"
  using assms by (auto simp: hasEdge_def split: option.splits dest!: map_of_SomeD)

text \<open>
  The merge appends: the closed graph holds, under every pair, the reverse edges collected
  by the loops followed by the targets the graph declares. The loops never collect a
  solid under itself.
\<close>

lemma arr_of_mergeOperations:
  "arr_of (mergeOperations object source) b
     = arr_of object b @ concat (map snd (filter (\<lambda>(symbol, sinks). symbol = b) source))"
  unfolding mergeOperations_def
  by (induction source arbitrary: object) (auto simp: arr_of_update concat_case_arr_of)

lemma sinksOf_graphMerge2:
  "sinksOf (graphMerge2 object source) a b = sinksOf object a b @ declaredSinks source a b"
proof (induction source arbitrary: object)
  case Nil
  then show ?case by (simp add: graphMerge2_def declaredSinks_def)
next
  case (Cons x xs)
  obtain key srcValue where x: "x = (key, srcValue)" by (cases x)
  define object' where
    "object' = AList.update key (mergeOperations (ops_at object key) srcValue) object"
  have unfold: "graphMerge2 object (x # xs) = graphMerge2 object' xs"
    by (simp add: graphMerge2_def x object'_def case_ops_at)
  have step: "sinksOf object' a b
      = sinksOf object a b
        @ (if key = a then concat (map snd (filter (\<lambda>(symbol, sinks). symbol = b) srcValue)) else [])"
    by (simp add: object'_def sinksOf_def ops_at_update arr_of_mergeOperations)
  have decl: "declaredSinks (x # xs) a b
      = (if key = a then concat (map snd (filter (\<lambda>(symbol, sinks). symbol = b) srcValue)) else [])
        @ declaredSinks xs a b"
    by (simp add: declaredSinks_def x)
  show ?case
    by (simp only: unfold Cons.IH step decl append_assoc)
qed

lemma sinksOf_makeBidirectional:
  "sinksOf (makeBidirectional g) a b = sinksOf (inverseEdges g) a b @ declaredSinks g a b"
  by (simp add: makeBidirectional_def graphMerge_def sinksOf_graphMerge2)

lemma addInverse_no_self:
  assumes "\<forall>s b. Some s \<notin> set (sinksOf result s b)"
  shows "\<forall>s b. Some s \<notin> set (sinksOf (addInverse source operation result sink) s b)"
proof (cases sink)
  case None
  then show ?thesis using assms by (simp add: addInverse_def)
next
  case (Some t)
  show ?thesis
  proof (cases "t = []")
    case True
    then show ?thesis using assms Some by (simp add: addInverse_def)
  next
    case False
    have old: "Some s \<notin> set (arr_of (ops_at result s) b)" for s b
      using assms by (simp add: sinksOf_def)
    show ?thesis
      using False Some old
      by (auto simp: addInverse_def Let_def sinksOf_update case_ops_at
               arr_of_def [symmetric] sinksOf_def [symmetric] split: if_splits)
  qed
qed

lemma inverseEdges_no_self: "\<forall>s b. Some s \<notin> set (sinksOf (inverseEdges g) s b)"
proof -
  let ?P = "\<lambda>result. \<forall>s b. Some s \<notin> set (sinksOf result s b)"
  have inner: "?P acc \<Longrightarrow> ?P (foldl (addInverse src opn) acc ys)" for acc src opn ys
  proof (rule foldl_preserve, assumption)
    fix acc' :: graph and y :: sink
    assume "?P acc'"
    then show "?P (addInverse src opn acc' y)" by (rule addInverse_no_self)
  qed
  have middle: "?P acc \<Longrightarrow>
      ?P (foldl (\<lambda>result (opn, ys). foldl (addInverse src opn) result ys) acc os)" for acc src os
  proof (rule foldl_preserve, assumption)
    fix acc' :: graph and y :: "string \<times> sink list"
    assume "?P acc'"
    then show "?P (case y of (opn, ys) \<Rightarrow> foldl (addInverse src opn) acc' ys)"
      using inner by (cases y) simp
  qed
  show ?thesis
    unfolding inverseEdges_def
  proof (rule foldl_preserve)
    show "?P []" by (simp add: sinksOf_def ops_at_def arr_of_def)
  next
    fix acc' :: graph and y :: "string \<times> operationTable"
    assume "?P acc'"
    then show "?P (case y of (source, ops) \<Rightarrow>
        foldl (\<lambda>result (operation, sinks). foldl (addInverse source operation) result sinks) acc' ops)"
      using middle by (cases y) simp
  qed
qed

text \<open>
  Claim C1. For every edge \<open>(solid, operation) \<rightarrow> target\<close> of a graph (the merged base
  graph in particular, whatever the two tables derived from the periodic table hold), the
  graph closed by \<open>makeBidirectional\<close> keeps the edge and, unless \<open>solid = target\<close>, holds
  the inverse edge \<open>(target, getInverseOperation operation) \<rightarrow> solid\<close>. Self-loops get no
  reverse edge: the reverse edges never hold a solid under itself, the closed graph is
  the reverse edges followed by the declared targets, and so a solid occurs under itself
  in the closed graph exactly as often as the graph declares it. A target is a non-empty
  name; the names of the graph are not property names of \<^verbatim>\<open>Object.prototype\<close>.
\<close>

theorem makeBidirectional_closed:
  assumes "hasEdge g solid operation (Some target)" and "target \<noteq> []" and "plainNames g"
  shows "hasEdge (makeBidirectional g) solid operation (Some target)
         \<and> (solid \<noteq> target \<longrightarrow>
              hasEdge (makeBidirectional g) target (getInverseOperation operation) (Some solid))
         \<and> (\<forall>s symbol. Some s \<notin> set (sinksOf (inverseEdges g) s symbol))
         \<and> (\<forall>s symbol. sinksOf (makeBidirectional g) s symbol
                = sinksOf (inverseEdges g) s symbol @ declaredSinks g s symbol)
         \<and> (\<forall>s symbol. count_list (sinksOf (makeBidirectional g) s symbol) (Some s)
                = count_list (declaredSinks g s symbol) (Some s))"
proof -
  obtain ops arr where e: "(solid, ops) \<in> set g" "(operation, arr) \<in> set ops" "Some target \<in> set arr"
    using hasEdge_entries [OF assms(1)] by blast
  have fwd: "Some target \<in> set (sinksOf (makeBidirectional g) solid operation)"
    using sinksOf_graphMerge2_source [OF e(1,2), of "inverseEdges g"] e(3)
    by (auto simp: makeBidirectional_def graphMerge_def)
  have bwd: "Some solid \<in> set (sinksOf (makeBidirectional g) target (getInverseOperation operation))"
    if "solid \<noteq> target"
  proof -
    have "Some solid \<in> set (sinksOf (inverseEdges g) target (getInverseOperation operation))"
      using inverseEdges_adds [OF e assms(2)] that by simp
    then show ?thesis
      using sinksOf_graphMerge2_object [of "inverseEdges g" target "getInverseOperation operation" g]
      by (auto simp: makeBidirectional_def graphMerge_def)
  qed
  have none: "\<forall>s symbol. Some s \<notin> set (sinksOf (inverseEdges g) s symbol)"
    by (rule inverseEdges_no_self)
  have exact: "\<forall>s symbol. sinksOf (makeBidirectional g) s symbol
      = sinksOf (inverseEdges g) s symbol @ declaredSinks g s symbol"
    by (simp add: sinksOf_makeBidirectional)
  have count: "\<forall>s symbol. count_list (sinksOf (makeBidirectional g) s symbol) (Some s)
      = count_list (declaredSinks g s symbol) (Some s)"
    using none by (simp add: sinksOf_makeBidirectional count_list_0_iff)
  show ?thesis using fwd bwd none exact count by (simp add: hasEdge_sinksOf)
qed

text \<open>
  The witness, on the graph merged from the declared tables: rectifying \<open>T\<close> gives \<open>O\<close>
  and back, and the self-loop of \<open>T\<close> under \<open>d\<close> is there once, as declared.
\<close>

theorem makeBidirectional_closed_witness:
  "hasEdge (baseGraph [] []) ''T'' ''r'' (Some ''O'') \<and> ''O'' \<noteq> [] \<and> plainNames (baseGraph [] [])
   \<and> hasEdge (makeBidirectional (baseGraph [] [])) ''T'' ''r'' (Some ''O'')
   \<and> hasEdge (makeBidirectional (baseGraph [] [])) ''O'' (getInverseOperation ''r'') (Some ''T'')
   \<and> hasEdge (baseGraph [] []) ''T'' ''d'' (Some ''T'')
   \<and> Some ''T'' \<notin> set (sinksOf (inverseEdges (baseGraph [] [])) ''T'' ''d'')
   \<and> count_list (sinksOf (makeBidirectional (baseGraph [] [])) ''T'' ''d'') (Some ''T'') = 1"
proof -
  have edge: "hasEdge (baseGraph [] []) ''T'' ''r'' (Some ''O'')" by code_simp
  have loop: "hasEdge (baseGraph [] []) ''T'' ''d'' (Some ''T'')" by code_simp
  have plain: "plainNames (baseGraph [] [])" by code_simp
  have target: "''O'' \<noteq> []" by simp
  have declared: "count_list (declaredSinks (baseGraph [] []) ''T'' ''d'') (Some ''T'') = 1"
    by code_simp
  note closed = makeBidirectional_closed [OF edge target plain]
  have "Some ''T'' \<notin> set (sinksOf (inverseEdges (baseGraph [] [])) ''T'' ''d'')"
    using closed by blast
  moreover have "count_list (sinksOf (makeBidirectional (baseGraph [] [])) ''T'' ''d'') (Some ''T'') = 1"
    using closed declared by simp
  ultimately show ?thesis
    using closed edge loop plain by simp
qed

text \<open>
  A self-loop under an operation that is not its own inverse leaves the reverse array
  empty: no reverse edge is added for it.
\<close>

lemma makeBidirectional_self_loop:
  "makeBidirectional [(''X'', [(''t'', [Some ''X''])])] = [(''X'', [(''~t'', []), (''t'', [Some ''X''])])]"
  by code_simp

subsection \<open>getNextPolyhedron\<close>

text \<open>
  Claim C2. When the closed graph maps \<open>(solid, operation)\<close>, the solid in Conway
  notation, to exactly one candidate, \<open>getNextPolyhedron\<close> returns what
  \<open>fromConwayNotation\<close> makes of that candidate; when it maps the pair to more than one
  candidate, \<open>getNextPolyhedron\<close> raises an error.
\<close>

theorem getNextPolyhedron_resolves:
  assumes "toConwayNotation solid = Inr notation"
    and "map_of graph notation = Some ops"
    and "map_of ops operation = Some next"
  shows "(\<forall>candidate. next = [candidate] \<longrightarrow>
            getNextPolyhedron toConwayNotation fromConwayNotation graph solid operation
              = fromConwayNotation candidate)
         \<and> (length next > 1 \<longrightarrow>
            getNextPolyhedron toConwayNotation fromConwayNotation graph solid operation
              = Inl (Error ''Cannot deal with more than one possibility right now''))"
  using assms by (simp add: getNextPolyhedron_def)

text \<open>
  The witness runs on the graph closed from the declared tables (the two tables derived
  from the periodic table left empty), with toy translations between names and Conway
  notation: rectifying the tetrahedron gives the octahedron, and gyrating \<open>J72\<close>, which
  has three candidates, raises.
\<close>

theorem getNextPolyhedron_resolves_witness:
  "getNextPolyhedron
      (\<lambda>n. if n = ''tetrahedron'' then Inr ''T'' else Inr n)
      (\<lambda>c. if c = Some ''O'' then Inr ''octahedron'' else Inl TypeError)
      (polyhedraGraph [] []) ''tetrahedron'' ''r'' = Inr ''octahedron''
   \<and> sinksOf (polyhedraGraph [] []) ''J72'' ''g'' = [Some ''eD'', Some ''J73'', Some ''J74'']
   \<and> getNextPolyhedron
      (\<lambda>n. if n = ''tetrahedron'' then Inr ''T'' else Inr n)
      (\<lambda>c. if c = Some ''O'' then Inr ''octahedron'' else Inl TypeError)
      (polyhedraGraph [] []) ''J72'' ''g''
        = Inl (Error ''Cannot deal with more than one possibility right now'')"
proof -
  let ?to = "\<lambda>n. if n = ''tetrahedron'' then Inr ''T'' else (Inr n :: js_error + string)"
  let ?from = "\<lambda>c. if c = Some ''O'' then Inr ''octahedron'' else (Inl TypeError :: js_error + string)"
  let ?g = "polyhedraGraph [] []"
  have t2: "map_of ?g ''T'' = Some (ops_at ?g ''T'')" by code_simp
  have t3: "map_of (ops_at ?g ''T'') ''r'' = Some [Some ''O'']" by code_simp
  have j2: "map_of ?g ''J72'' = Some (ops_at ?g ''J72'')" by code_simp
  have j3: "map_of (ops_at ?g ''J72'') ''g'' = Some [Some ''eD'', Some ''J73'', Some ''J74'']"
    by code_simp
  have s: "sinksOf ?g ''J72'' ''g'' = [Some ''eD'', Some ''J73'', Some ''J74'']" by code_simp
  have one: "getNextPolyhedron ?to ?from ?g ''tetrahedron'' ''r'' = Inr ''octahedron''"
    using getNextPolyhedron_resolves
      [of ?to "''tetrahedron''" "''T''" ?g "ops_at ?g ''T''" "''r''" "[Some ''O'']" ?from]
      t2 t3
    by simp
  have many: "getNextPolyhedron ?to ?from ?g ''J72'' ''g''
      = Inl (Error ''Cannot deal with more than one possibility right now'')"
    using getNextPolyhedron_resolves
      [of ?to "''J72''" "''J72''" ?g "ops_at ?g ''J72''" "''g''"
          "[Some ''eD'', Some ''J73'', Some ''J74'']" ?from]
      j2 j3
    by simp
  show ?thesis using one many s by simp
qed

subsection \<open>The reducer\<close>

text \<open>
  An operation symbol that is neither an own property of \<open>operations\<close> nor a property name
  of \<^verbatim>\<open>Object.prototype\<close> leaves the state as it is.
\<close>

lemma reducer_unknown_plain:
  assumes "operation \<notin> {''+'', ''-'', ''g''}" and "operation \<notin> set objectPrototypeNames"
  shows "polyhedron_reducer env initialState (Some s) (APPLY_OPERATION operation solidName config)
           = Inr s"
  using assms
  by (simp add: polyhedron_reducer_def operations_def objectPrototypeNames_def)

text \<open>
  Claim C8. An \<open>APPLY_OPERATION\<close> request whose operation symbol is not a known symbol is
  said to return the state unchanged and never to fail. The guard reads
  \<^verbatim>\<open>operations[action.operation]\<close> on a plain object, so the symbol \<^verbatim>\<open>__proto__\<close> reads
  as \<^verbatim>\<open>Object.prototype\<close>, which is truthy; the reducer goes on to call it and raises a
  \<^verbatim>\<open>TypeError\<close>.
\<close>

theorem reducer_apply_proto_raises:
  "''__proto__'' \<notin> {''+'', ''-'', ''g''}
   \<and> polyhedron_reducer env initialState (Some s) (APPLY_OPERATION ''__proto__'' solidName config)
       = Inl TypeError"
  by (simp add: polyhedron_reducer_def operations_def objectPrototypeFunctions_def)

text \<open>
  An inherited function such as \<^verbatim>\<open>constructor\<close> is found and called as well; the state
  then takes the requested name and whatever the call returns.
\<close>

lemma reducer_apply_constructor:
  assumes "objectPrototypeCall env ''constructor'' (data s) config = Inr d"
  shows "polyhedron_reducer env initialState (Some s) (APPLY_OPERATION ''constructor'' solidName config)
           = Inr (s\<lparr>data := d, name := solidName\<rparr>)"
  using assms
  by (simp add: polyhedron_reducer_def operations_def objectPrototypeFunctions_def)

text \<open>
  Claim C9. On a \<open>SET_POLYHEDRON\<close> request the reducer returns the state unchanged when
  the requested name is not in the catalog of canonical solids (\<open>isValidSolid\<close> says no);
  when it is, the new state holds that name and the polyhedron that \<open>Polyhedron.get\<close>
  loads for it from the catalog, and every other field is kept.
\<close>

theorem reducer_set_polyhedron:
  "(\<not> isValidSolid env solidName \<longrightarrow>
      polyhedron_reducer env initialState (Some s) (SET_POLYHEDRON solidName) = Inr s)
   \<and> (\<forall>p. isValidSolid env solidName \<and> Polyhedron_get env solidName = Inr p \<longrightarrow>
      polyhedron_reducer env initialState (Some s) (SET_POLYHEDRON solidName)
        = Inr (s\<lparr>data := p, name := solidName\<rparr>))"
  by (simp add: polyhedron_reducer_def)

text \<open>
  The witness: a catalog holding the cube (its data the number 6 here), a state showing the
  tetrahedron, and the handlers left as the identity.
\<close>

theorem reducer_set_polyhedron_witness:
  "polyhedron_reducer
        \<lparr>augment = \<lambda>p c. Inr p, diminish = \<lambda>p c. Inr p, gyrate = \<lambda>p c. Inr p,
         objectPrototypeCall = \<lambda>k p (c :: unit). Inr p,
         isValidSolid = (\<lambda>n. n = ''cube''),
         Polyhedron_get = (\<lambda>n. if n = ''cube'' then Inr (6 :: nat) else Inl NotFoundError)\<rparr>
        \<lparr>name = ''tetrahedron'', data = 4\<rparr>
        (Some \<lparr>name = ''tetrahedron'', data = 4\<rparr>) (SET_POLYHEDRON ''cube'')
       = Inr \<lparr>name = ''cube'', data = 6\<rparr>
   \<and> polyhedron_reducer
        \<lparr>augment = \<lambda>p c. Inr p, diminish = \<lambda>p c. Inr p, gyrate = \<lambda>p c. Inr p,
         objectPrototypeCall = \<lambda>k p (c :: unit). Inr p,
         isValidSolid = (\<lambda>n. n = ''cube''),
         Polyhedron_get = (\<lambda>n. if n = ''cube'' then Inr (6 :: nat) else Inl NotFoundError)\<rparr>
        \<lparr>name = ''tetrahedron'', data = 4\<rparr>
        (Some \<lparr>name = ''tetrahedron'', data = 4\<rparr>) (SET_POLYHEDRON ''blob'')
       = Inr \<lparr>name = ''tetrahedron'', data = 4\<rparr>"
proof -
  let ?env = "\<lparr>augment = \<lambda>p c. Inr p, diminish = \<lambda>p c. Inr p, gyrate = \<lambda>p c. Inr p,
         objectPrototypeCall = \<lambda>k p (c :: unit). Inr p,
         isValidSolid = (\<lambda>n. n = ''cube''),
         Polyhedron_get = (\<lambda>n. if n = ''cube'' then Inr (6 :: nat) else Inl NotFoundError)\<rparr>"
  let ?s = "\<lparr>name = ''tetrahedron'', data = 4 :: nat\<rparr>"
  have inside: "isValidSolid ?env ''cube''" "Polyhedron_get ?env ''cube'' = Inr 6" by simp_all
  have outside: "\<not> isValidSolid ?env ''blob''" by simp
  show ?thesis
    using reducer_set_polyhedron [of ?env "''cube''" ?s ?s]
      reducer_set_polyhedron [of ?env "''blob''" ?s ?s] inside outside
    by simp
qed

subsection \<open>removeExtraneousVertices\<close>

text \<open>With distinct keys, building an object pair by pair keeps the pairs as they come.\<close>

lemma update_fresh:
  "k \<notin> fst ` set al \<Longrightarrow> AList.update k v al = al @ [(k, v)]"
  by (induction al) auto

lemma fromPairs_distinct_aux:
  "distinct (map fst (acc @ ps)) \<Longrightarrow>
     foldl (\<lambda>result (key, value). AList.update key value result) acc ps = acc @ ps"
proof (induction ps arbitrary: acc)
  case Nil then show ?case by simp
next
  case (Cons x xs)
  obtain k v where x: "x = (k, v)" by (cases x)
  have fresh: "k \<notin> fst ` set acc" using Cons.prems by (auto simp: x)
  have "distinct (map fst ((acc @ [(k, v)]) @ xs))" using Cons.prems by (simp add: x)
  from Cons.IH [OF this] show ?case by (simp add: x update_fresh [OF fresh])
qed

lemma fromPairs_distinct: "distinct (map fst ps) \<Longrightarrow> fromPairs ps = ps"
  using fromPairs_distinct_aux [of "[]" ps] by (simp add: fromPairs_def)

lemma invert_distinct_aux:
  "distinct (map fst acc @ map snd ps) \<Longrightarrow>
     foldl (\<lambda>result (key, value). AList.update value key result) acc ps
       = acc @ map (\<lambda>(k, v). (v, k)) ps"
proof (induction ps arbitrary: acc)
  case Nil then show ?case by simp
next
  case (Cons x xs)
  obtain k v where x: "x = (k, v)" by (cases x)
  have fresh: "v \<notin> fst ` set acc" using Cons.prems by (auto simp: x)
  have "distinct (map fst (acc @ [(v, k)]) @ map snd xs)" using Cons.prems by (simp add: x)
  from Cons.IH [OF this] show ?case by (simp add: x update_fresh [OF fresh])
qed

lemma invert_distinct: "distinct (map snd ps) \<Longrightarrow> invert ps = map (\<lambda>(k, v). (v, k)) ps"
  using invert_distinct_aux [of "[]" ps] by (simp add: invert_def)

lemma swap_zip: "map (\<lambda>(k, v). (v, k)) (zip xs ys) = zip ys xs"
  by (induction xs ys rule: list_induct2') auto


lemma get_zip_nth:
  assumes "length xs = length ys" "distinct xs" "i < length xs"
  shows "get (zip xs ys) (xs ! i) (xs ! i) = ys ! i"
  using map_of_zip_nth [of xs ys i] assms by (simp add: get_def)

lemma get_zip_notin:
  assumes "length xs = length ys" "x \<notin> set xs"
  shows "get (zip xs ys) x x = x"
proof -
  have "map_of (zip xs ys) x = None"
    using map_of_zip_is_None [OF assms(1), of x] assms(2) by simp
  then show ?thesis by (simp add: get_def)
qed

text \<open>
  The heart of \<open>removeExtraneousVertices\<close>. With \<open>U\<close> the vertices some face names and
  \<open>n'\<close> the new number of vertices, the map \<open>\<rho>\<close> applied to the faces fixes every
  vertex of \<open>U\<close> below \<open>n'\<close> and sends those from \<open>n'\<close> on to the free slots below
  \<open>n'\<close>; the map \<open>\<sigma>\<close> used for the new vertex list undoes it.
\<close>

lemma reindex_core:
  fixes p :: "('v, 'x) polyhedron_scheme"
  assumes valid: "validFaces p"
  defines "U \<equiv> set (vertsInFaces p)"
    and "n \<equiv> length (vertices p)"
    and "n' \<equiv> length (vertices p) - length (toRemove p)"
    and "\<rho> \<equiv> \<lambda>v. get (newToOld p) v v"
    and "\<sigma> \<equiv> \<lambda>v. get (invert (newToOld p)) v v"
  shows "removeExtraneousVertices p
           = Inr (p\<lparr>vertices := map (\<lambda>v. vertices p ! \<sigma> v) [0..<n'],
                    faces := map (map \<rho>) (faces p)\<rparr>)"
    and "n' = card U"
    and "inj_on \<rho> U"
    and "\<rho> ` U = {..<n'}"
    and "\<forall>v \<in> U. \<sigma> (\<rho> v) = v"
    and "\<forall>v \<in> U. v < n' \<longrightarrow> \<rho> v = v"
    and "\<forall>v \<in> U. n' \<le> v \<longrightarrow> \<rho> v \<notin> U"
proof -
  define R where "R = toRemove p"
  define Rlow where "Rlow = filter (\<lambda>v. v \<notin> U) [0..<n']"
  define Rhigh where "Rhigh = filter (\<lambda>v. v \<notin> U) [n'..<n]"
  define M where "M = filter (\<lambda>v. v \<in> U) [n'..<n]"
  have U_sub: "U \<subseteq> {..<n}"
    using valid by (auto simp: validFaces_def U_def vertsInFaces_def n_def)
  have R_eq: "R = filter (\<lambda>v. v \<notin> U) [0..<n]"
    by (simp add: R_def toRemove_def U_def n_def)
  have r_le: "length R \<le> n"
    unfolding R_eq using length_filter_le [of "\<lambda>v. v \<notin> U" "[0..<n]"] by simp
  have n'_eq: "n' = n - length R" by (simp add: n'_def n_def R_def)
  have n'_le: "n' \<le> n" by (simp add: n'_eq)
  have split: "[0..<n] = [0..<n'] @ [n'..<n]"
    using n'_le by (metis le_add_diff_inverse upt_add_eq_append zero_le)
  have R_split: "R = Rlow @ Rhigh"
    unfolding R_eq Rlow_def Rhigh_def by (subst split) simp
  have high_len: "length M + length Rhigh = length R"
  proof -
    have "length M + length Rhigh = length [n'..<n]"
      unfolding M_def Rhigh_def by (rule sum_length_filter_compl)
    also have "\<dots> = length R" using r_le by (simp add: n'_eq)
    finally show ?thesis .
  qed
  have len: "length M = length Rlow"
    using high_len R_split by simp
  have tr: "takeRight (length R) [0..<n] = [n'..<n]"
    by (simp add: takeRight_def n'_eq)
  have M_alt: "filter (\<lambda>v. v \<notin> set R) [n'..<n] = M"
    unfolding M_def by (rule filter_cong) (auto simp: R_eq)
  have dM: "distinct M" by (simp add: M_def)
  have dR: "distinct Rlow" by (simp add: Rlow_def)
  have zipMR: "zip M R = zip M Rlow"
    by (simp add: R_split zip_append2 len)
  have nto: "newToOld p = zip M Rlow"
  proof -
    have "newToOld p = fromPairs (zip M R)"
      using tr M_alt by (simp add: newToOld_def R_def n_def)
    also have "\<dots> = zip M Rlow"
      unfolding zipMR by (rule fromPairs_distinct) (simp add: len dM)
    finally show ?thesis .
  qed
  have inv: "invert (newToOld p) = zip Rlow M"
    unfolding nto using invert_distinct [of "zip M Rlow"] by (simp add: len dR swap_zip)
  have M_set: "set M = {v \<in> U. n' \<le> v}"
    using U_sub by (auto simp: M_def)
  have Rlow_set: "set Rlow = {v. v < n' \<and> v \<notin> U}"
    by (auto simp: Rlow_def)
  have rho_low: "\<rho> v = v" if "v \<notin> set M" for v
    unfolding \<rho>_def nto using get_zip_notin [OF len that] .
  have rho_M: "\<rho> (M ! i) = Rlow ! i" if "i < length M" for i
    unfolding \<rho>_def nto using get_zip_nth [OF len dM that] .
  have sigma_R: "\<sigma> (Rlow ! i) = M ! i" if "i < length M" for i
    unfolding \<sigma>_def inv using get_zip_nth [OF len [symmetric] dR] that len by simp
  have sigma_other: "\<sigma> v = v" if "v \<notin> set Rlow" for v
    unfolding \<sigma>_def inv using get_zip_notin [OF len [symmetric] that] .
  show fix_low: "\<forall>v \<in> U. v < n' \<longrightarrow> \<rho> v = v"
    using rho_low M_set by auto
  show sig: "\<forall>v \<in> U. \<sigma> (\<rho> v) = v"
  proof
    fix v assume v: "v \<in> U"
    show "\<sigma> (\<rho> v) = v"
    proof (cases "v \<in> set M")
      case True
      then obtain i where i: "i < length M" "M ! i = v" by (auto simp: in_set_conv_nth)
      then show ?thesis using rho_M [of i] sigma_R [of i] by simp
    next
      case False
      then have "\<rho> v = v" by (rule rho_low)
      moreover have "v \<notin> set Rlow" using v Rlow_set by simp
      ultimately show ?thesis using sigma_other by simp
    qed
  qed
  show "inj_on \<rho> U"
    by (rule inj_on_inverseI [of U \<sigma>]) (use sig in auto)
  show moved: "\<forall>v \<in> U. n' \<le> v \<longrightarrow> \<rho> v \<notin> U"
  proof (intro ballI impI)
    fix v assume "v \<in> U" "n' \<le> v"
    then have "v \<in> set M" using M_set by simp
    then obtain i where i: "i < length M" "M ! i = v" by (auto simp: in_set_conv_nth)
    then have "\<rho> v = Rlow ! i" using rho_M by auto
    moreover have "Rlow ! i \<in> set Rlow" using i len by simp
    ultimately show "\<rho> v \<notin> U" using Rlow_set by simp
  qed
  show img: "\<rho> ` U = {..<n'}"
  proof (intro equalityI subsetI)
    fix y assume "y \<in> \<rho> ` U"
    then obtain v where v: "v \<in> U" "y = \<rho> v" by auto
    show "y \<in> {..<n'}"
    proof (cases "v \<in> set M")
      case True
      then obtain i where i: "i < length M" "M ! i = v" by (auto simp: in_set_conv_nth)
      then have "y = Rlow ! i" using rho_M v by auto
      moreover have "Rlow ! i \<in> set Rlow" using i len by simp
      ultimately show ?thesis using Rlow_set by simp
    next
      case False
      then have "y = v" using rho_low v by simp
      moreover have "v < n'" using False v M_set by auto
      ultimately show ?thesis by simp
    qed
  next
    fix y assume "y \<in> {..<n'}"
    then have y: "y < n'" by simp
    show "y \<in> \<rho> ` U"
    proof (cases "y \<in> U")
      case True
      then have "\<rho> y = y" using fix_low y by simp
      then show ?thesis using True by force
    next
      case False
      then have "y \<in> set Rlow" using y Rlow_set by simp
      then obtain i where i: "i < length Rlow" "Rlow ! i = y" by (auto simp: in_set_conv_nth)
      then have "\<rho> (M ! i) = y" using rho_M len by simp
      moreover have "M ! i \<in> U" using i len M_set nth_mem [of i M] by auto
      ultimately show ?thesis by force
    qed
  qed
  show "n' = card U"
  proof -
    have "card (\<rho> ` U) = card U" using \<open>inj_on \<rho> U\<close> by (rule card_image)
    then show ?thesis using img by simp
  qed
  show "removeExtraneousVertices p
           = Inr (p\<lparr>vertices := map (\<lambda>v. vertices p ! \<sigma> v) [0..<n'],
                    faces := map (map \<rho>) (faces p)\<rparr>)"
  proof -
    have "dropRight (length (toRemove p)) (map (\<lambda>v. vertices p ! \<sigma> v) [0..<n])
            = map (\<lambda>v. vertices p ! \<sigma> v) [0..<n']"
      using n'_le by (simp add: dropRight_def take_map n'_eq R_def)
    then show ?thesis
      using valid by (simp add: removeExtraneousVertices_def Let_def \<sigma>_def \<rho>_def n_def)
  qed
qed


text \<open>
  Claim C6, as the code has it. On a polyhedron whose faces name existing vertices,
  \<open>removeExtraneousVertices\<close> keeps exactly the vertices some face names: the new vertex
  list has one slot for each, the faces are re-indexed by a map \<open>\<rho>\<close> that is a bijection
  from the named vertices onto the new index range, and a named vertex is found at its
  new index. It is not a full re-index: a named vertex whose index is below the new
  length keeps its index, and one at or beyond it moves into a slot freed by a removed
  vertex.
\<close>

theorem removeExtraneousVertices_reindex:
  assumes "validFaces p"
  shows "\<exists>q \<rho>. removeExtraneousVertices p = Inr q
      \<and> polyhedron.more q = polyhedron.more p
      \<and> length (vertices q) = card (set (vertsInFaces p))
      \<and> faces q = map (map \<rho>) (faces p)
      \<and> bij_betw \<rho> (set (vertsInFaces p)) {..<length (vertices q)}
      \<and> (\<forall>v \<in> set (vertsInFaces p).
            vertices q ! \<rho> v = vertices p ! v
            \<and> (v < length (vertices q) \<longrightarrow> \<rho> v = v)
            \<and> (length (vertices q) \<le> v \<longrightarrow> \<rho> v \<notin> set (vertsInFaces p)))"
proof -
  let ?U = "set (vertsInFaces p)"
  let ?n' = "length (vertices p) - length (toRemove p)"
  let ?\<rho> = "\<lambda>v. get (newToOld p) v v"
  let ?\<sigma> = "\<lambda>v. get (invert (newToOld p)) v v"
  let ?q = "p\<lparr>vertices := map (\<lambda>v. vertices p ! ?\<sigma> v) [0..<?n'],
              faces := map (map ?\<rho>) (faces p)\<rparr>"
  note core = reindex_core [OF assms]
  have len: "length (vertices ?q) = ?n'" by simp
  have pos: "vertices ?q ! ?\<rho> v = vertices p ! v" if "v \<in> ?U" for v
  proof -
    have "?\<rho> v < ?n'" using core(4) that by blast
    then show ?thesis using core(5) that by simp
  qed
  have "removeExtraneousVertices p = Inr ?q" by (rule core(1))
  moreover have "polyhedron.more ?q = polyhedron.more p" by simp
  moreover have "length (vertices ?q) = card ?U" using core(2) by simp
  moreover have "faces ?q = map (map ?\<rho>) (faces p)" by simp
  moreover have "bij_betw ?\<rho> ?U {..<length (vertices ?q)}"
    unfolding bij_betw_def len using core(3,4) by simp
  moreover have "\<forall>v \<in> ?U. vertices ?q ! ?\<rho> v = vertices p ! v
            \<and> (v < length (vertices ?q) \<longrightarrow> ?\<rho> v = v)
            \<and> (length (vertices ?q) \<le> v \<longrightarrow> ?\<rho> v \<notin> ?U)"
    unfolding len using pos core(6,7) by blast
  ultimately show ?thesis by blast
qed

theorem removeExtraneousVertices_reindex_witness:
  "validFaces \<lparr>vertices = [''a'', ''x'', ''b'', ''c'', ''d''],
               faces = [[0, 2, 3], [0, 3, 4], [0, 4, 2], [2, 4, 3]]\<rparr>
   \<and> (\<exists>q \<rho>. removeExtraneousVertices \<lparr>vertices = [''a'', ''x'', ''b'', ''c'', ''d''],
               faces = [[0, 2, 3], [0, 3, 4], [0, 4, 2], [2, 4, 3]]\<rparr> = Inr q
        \<and> length (vertices q) = 4
        \<and> faces q = map (map \<rho>) [[0, 2, 3], [0, 3, 4], [0, 4, 2], [2, 4, 3 :: nat]]
        \<and> bij_betw \<rho> {0, 2, 3, 4} {..<4}
        \<and> vertices q ! \<rho> 4 = ''d'' \<and> \<rho> 0 = 0 \<and> \<rho> 2 = 2 \<and> \<rho> 3 = 3 \<and> \<rho> 4 \<notin> {0, 2, 3, 4})"
proof -
  let ?p = "\<lparr>vertices = [''a'', ''x'', ''b'', ''c'', ''d''],
             faces = [[0, 2, 3], [0, 3, 4], [0, 4, 2], [2, 4, 3 :: nat]]\<rparr>"
  have valid: "validFaces ?p" by (simp add: validFaces_def)
  have used: "set (vertsInFaces ?p) = {0, 2, 3, 4}" by (auto simp: vertsInFaces_def)
  have card: "card {0, 2, 3, 4 :: nat} = 4" by simp
  from removeExtraneousVertices_reindex [OF valid]
  obtain q \<rho> where q: "removeExtraneousVertices ?p = Inr q"
      "length (vertices q) = card (set (vertsInFaces ?p))"
      "faces q = map (map \<rho>) (faces ?p)"
      "bij_betw \<rho> (set (vertsInFaces ?p)) {..<length (vertices q)}"
      "\<forall>v \<in> set (vertsInFaces ?p).
            vertices q ! \<rho> v = vertices ?p ! v
            \<and> (v < length (vertices q) \<longrightarrow> \<rho> v = v)
            \<and> (length (vertices q) \<le> v \<longrightarrow> \<rho> v \<notin> set (vertsInFaces ?p))"
    by blast
  have l4: "length (vertices q) = 4" using q(2) used card by simp
  have "faces q = map (map \<rho>) [[0, 2, 3], [0, 3, 4], [0, 4, 2], [2, 4, 3]]" using q(3) by simp
  moreover have "bij_betw \<rho> {0, 2, 3, 4} {..<4}" using q(4) used l4 by simp
  moreover have "vertices q ! \<rho> 4 = ''d''" "\<rho> 0 = 0" "\<rho> 2 = 2" "\<rho> 3 = 3" "\<rho> 4 \<notin> {0, 2, 3, 4}"
    using q(5) used l4 by simp_all
  ultimately show ?thesis using valid q(1) l4 by blast
qed

text \<open>
  Claim C6 as stated also says that the kept vertices keep their relative order in the
  new vertex list. They do not: a tetrahedron on the vertices \<open>a, b, c, d\<close> with a stray
  vertex \<open>x\<close> at index 1 comes back with \<open>d\<close> moved into the slot of \<open>x\<close>, ahead of
  \<open>b\<close> and \<open>c\<close>.
\<close>

theorem removeExtraneousVertices_order_counterexample:
  "validFaces \<lparr>vertices = [''a'', ''x'', ''b'', ''c'', ''d''],
               faces = [[0, 2, 3], [0, 3, 4], [0, 4, 2], [2, 4, 3]]\<rparr>
   \<and> removeExtraneousVertices \<lparr>vertices = [''a'', ''x'', ''b'', ''c'', ''d''],
               faces = [[0, 2, 3], [0, 3, 4], [0, 4, 2], [2, 4, 3]]\<rparr>
       = Inr \<lparr>vertices = [''a'', ''d'', ''b'', ''c''],
              faces = [[0, 2, 3], [0, 3, 1], [0, 1, 2], [2, 1, 3]]\<rparr>
   \<and> map (\<lambda>v. [''a'', ''x'', ''b'', ''c'', ''d''] ! v)
        (filter (\<lambda>v. v \<in> set (vertsInFaces \<lparr>vertices = [''a'', ''x'', ''b'', ''c'', ''d''],
               faces = [[0, 2, 3], [0, 3, 4], [0, 4, 2], [2, 4, 3]]\<rparr>)) [0..<5])
       = [''a'', ''b'', ''c'', ''d'']
   \<and> [''a'', ''d'', ''b'', ''c''] \<noteq> [''a'', ''b'', ''c'', ''d'']"
  by code_simp


subsection \<open>deduplicateVertices\<close>

lemma uniq_aux:
  "distinct seen \<Longrightarrow>
     distinct (foldl (\<lambda>seen x. if x \<in> set seen then seen else seen @ [x]) seen xs)
     \<and> set (foldl (\<lambda>seen x. if x \<in> set seen then seen else seen @ [x]) seen xs) = set seen \<union> set xs"
  by (induction xs arbitrary: seen) auto

lemma distinct_uniq: "distinct (uniq xs)"
  using uniq_aux [of "[]" xs] by (simp add: uniq_def)

lemma set_uniq: "set (uniq xs) = set xs"
  using uniq_aux [of "[]" xs] by (simp add: uniq_def)

lemma uniq_distinct_aux:
  "distinct (seen @ xs) \<Longrightarrow>
     foldl (\<lambda>seen x. if x \<in> set seen then seen else seen @ [x]) seen xs = seen @ xs"
  by (induction xs arbitrary: seen) auto

lemma uniq_distinct: "distinct xs \<Longrightarrow> uniq xs = xs"
  using uniq_distinct_aux [of "[]" xs] by (simp add: uniq_def)

text \<open>
  The loop of \<open>deduplicateVertices\<close>, one vertex at a time: the map has an entry for every
  vertex seen, every entry is one of the vertices kept as unique, and no kept vertex
  equals an earlier kept one.
\<close>

lemma dedupLoop_Suc:
  "foldl (dedupStep eq vs) ([], []) [0..<Suc k]
     = dedupStep eq vs (foldl (dedupStep eq vs) ([], []) [0..<k]) k"
  by simp

lemma dedupLoop_prefix:
  assumes "foldl (dedupStep eq vs) ([], []) [0..<k] = (u, m)"
  shows "length m = k \<and> set u \<subseteq> {..<k} \<and> (\<forall>i<k. m ! i \<in> set u)
         \<and> (\<forall>a \<in> set u. \<forall>b \<in> set u. a < b \<longrightarrow> \<not> eq (vs ! b) (vs ! a))"
  using assms
proof (induction k arbitrary: u m)
  case 0
  then show ?case by simp
next
  case (Suc k)
  obtain u0 m0 where prev: "foldl (dedupStep eq vs) ([], []) [0..<k] = (u0, m0)"
    by (cases "foldl (dedupStep eq vs) ([], []) [0..<k]")
  note ih = Suc.IH [OF prev]
  have step: "dedupStep eq vs (u0, m0) k = (u, m)"
    using Suc.prems prev by (simp only: dedupLoop_Suc)
  show ?case
  proof (cases "find (\<lambda>point. eq (vs ! k) (vs ! point)) u0")
    case None
    then have u: "u = u0 @ [k]" and m: "m = m0 @ [k]"
      using step by (simp_all add: dedupStep_def)
    have nomatch: "\<forall>a \<in> set u0. \<not> eq (vs ! k) (vs ! a)"
      using None by (simp add: find_None_iff)
    have below: "\<forall>a \<in> set u0. a < k" using ih by auto
    have "\<forall>i<Suc k. m ! i \<in> set u"
    proof (intro allI impI)
      fix i assume "i < Suc k"
      then show "m ! i \<in> set u"
        using ih by (cases "i = k") (auto simp: u m nth_append)
    qed
    moreover have "\<forall>a \<in> set u. \<forall>b \<in> set u. a < b \<longrightarrow> \<not> eq (vs ! b) (vs ! a)"
      using ih nomatch below by (auto simp: u)
    moreover have "length m = Suc k" using ih by (simp add: m)
    moreover have "set u \<subseteq> {..<Suc k}" using ih by (auto simp: u)
    ultimately show ?thesis by blast
  next
    case (Some match)
    then have u: "u = u0" and m: "m = m0 @ [match]"
      using step by (simp_all add: dedupStep_def)
    have inU: "match \<in> set u0"
      using Some by (auto simp: find_Some_iff)
    have "\<forall>i<Suc k. m ! i \<in> set u"
    proof (intro allI impI)
      fix i assume "i < Suc k"
      then show "m ! i \<in> set u"
        using ih inU by (cases "i = k") (auto simp: u m nth_append)
    qed
    moreover have "length m = Suc k" using ih by (simp add: m)
    moreover have "set u \<subseteq> {..<Suc k}" using ih by (auto simp: u)
    ultimately show ?thesis using ih by (simp add: u)
  qed
qed

lemma dedupLoop_fresh:
  assumes "\<forall>i<k. \<forall>j<i. \<not> eq (vs ! i) (vs ! j)"
  shows "foldl (dedupStep eq vs) ([], []) [0..<k] = ([0..<k], [0..<k])"
  using assms
proof (induction k)
  case 0
  then show ?case by simp
next
  case (Suc k)
  have prev: "foldl (dedupStep eq vs) ([], []) [0..<k] = ([0..<k], [0..<k])"
    using Suc by simp
  have "find (\<lambda>point. eq (vs ! k) (vs ! point)) [0..<k] = None"
    using Suc.prems by (simp add: find_None_iff)
  then show ?case
    by (simp only: dedupLoop_Suc prev) (simp add: dedupStep_def)
qed

lemma removeExtraneousVertices_all_used:
  fixes q :: "('v, 'x) polyhedron_scheme"
  assumes "validFaces q" and "set (vertsInFaces q) = {..<length (vertices q)}"
  shows "removeExtraneousVertices q = Inr q"
proof -
  have tr: "toRemove q = []" using assms(2) by (simp add: toRemove_def)
  have nto: "newToOld q = []" by (simp add: newToOld_def tr fromPairs_def)
  have "map (\<lambda>v. vertices q ! v) [0..<length (vertices q)] = vertices q"
    by (rule map_nth)
  then show ?thesis
    using assms(1)
    by (simp add: removeExtraneousVertices_def Let_def tr nto invert_def get_def dropRight_def)
qed


text \<open>
  What the first application returns: every vertex is named by some face, every face has
  at least three vertices, all different, and no two vertices are equal within tolerance.
  On such a polyhedron \<open>deduplicateVertices\<close> changes nothing.
\<close>

lemma reindex_exists:
  fixes p :: "('v, 'x) polyhedron_scheme"
  assumes "validFaces p"
  shows "\<exists>\<rho> \<sigma> n'. removeExtraneousVertices p
           = Inr (p\<lparr>vertices := map (\<lambda>v. vertices p ! \<sigma> v) [0..<n'],
                    faces := map (map \<rho>) (faces p)\<rparr>)
      \<and> n' = card (set (vertsInFaces p))
      \<and> inj_on \<rho> (set (vertsInFaces p))
      \<and> \<rho> ` set (vertsInFaces p) = {..<n'}
      \<and> (\<forall>v \<in> set (vertsInFaces p). \<sigma> (\<rho> v) = v)"
proof (intro exI conjI)
  show "removeExtraneousVertices p
      = Inr (p\<lparr>vertices := map (\<lambda>v. vertices p ! get (invert (newToOld p)) v v)
                                [0..<length (vertices p) - length (toRemove p)],
               faces := map (map (\<lambda>v. get (newToOld p) v v)) (faces p)\<rparr>)"
    by (rule reindex_core(1) [OF assms])
qed (rule reindex_core(2-5) [OF assms])+

lemma deduplicateVertices_result:
  fixes p :: "('v, 'x) polyhedron_scheme"
  assumes valid: "validFaces p"
  shows "\<exists>q. deduplicateVertices eq p = Inr q
           \<and> validFaces q
           \<and> set (vertsInFaces q) = {..<length (vertices q)}
           \<and> (\<forall>face \<in> set (faces q). distinct face \<and> 3 \<le> length face)
           \<and> ((\<forall>a b. eq a b \<longrightarrow> eq b a) \<longrightarrow>
                (\<forall>i<length (vertices q). \<forall>j<i. \<not> eq (vertices q ! i) (vertices q ! j)))"
proof -
  define vs where "vs = vertices p"
  obtain u m where loop: "dedupLoop eq vs = (u, m)" by (cases "dedupLoop eq vs")
  have inv: "length m = length vs \<and> set u \<subseteq> {..<length vs} \<and> (\<forall>i<length vs. m ! i \<in> set u)
         \<and> (\<forall>a \<in> set u. \<forall>b \<in> set u. a < b \<longrightarrow> \<not> eq (vs ! b) (vs ! a))"
    using dedupLoop_prefix [of eq vs "length vs" u m] loop by (simp add: dedupLoop_def)
  have apart: "\<not> eq (vs ! a) (vs ! b)"
    if "a \<in> set u" "b \<in> set u" "a \<noteq> b" and sym: "\<forall>a b. eq a b \<longrightarrow> eq b a" for a b
  proof (cases "a < b")
    case True
    then have "\<not> eq (vs ! b) (vs ! a)" using inv that by blast
    then show ?thesis using sym by blast
  next
    case False
    then have "b < a" using that(3) by simp
    then show ?thesis using inv that by blast
  qed
  define faces1 where "faces1 = filter (\<lambda>vIndices. length vIndices \<ge> 3)
                         (map (\<lambda>face. uniq (map (\<lambda>v. m ! v) face)) (faces p))"
  define p1 where "p1 = p\<lparr>faces := faces1\<rparr>"
  have p1_faces: "faces p1 = faces1" and p1_vertices: "vertices p1 = vs"
    by (simp_all add: p1_def vs_def)
  have dedup: "deduplicateVertices eq p = removeExtraneousVertices p1"
    using valid loop by (simp add: deduplicateVertices_def Let_def p1_def faces1_def vs_def)
  have f1: "distinct face \<and> 3 \<le> length face \<and> set face \<subseteq> set u" if "face \<in> set faces1" for face
  proof -
    from that obtain f0 where f0: "f0 \<in> set (faces p)" "face = uniq (map (\<lambda>v. m ! v) f0)"
      and len: "3 \<le> length face"
      by (auto simp: faces1_def)
    have "\<forall>v \<in> set f0. v < length vs" using valid f0(1) by (auto simp: validFaces_def vs_def)
    then have "set face \<subseteq> set u" using inv by (auto simp: f0(2) set_uniq)
    then show ?thesis using len by (simp add: f0(2) distinct_uniq)
  qed
  define U where "U = set (vertsInFaces p1)"
  have U_faces: "U = \<Union> (set ` set faces1)"
    by (simp add: U_def vertsInFaces_def p1_faces)
  have U1: "U \<subseteq> set u"
    using f1 by (auto simp: U_faces)
  have valid1: "validFaces p1"
    unfolding validFaces_def p1_faces p1_vertices using f1 inv by blast
  from reindex_exists [OF valid1] obtain \<rho> \<sigma> n' where
    core: "removeExtraneousVertices p1
             = Inr (p1\<lparr>vertices := map (\<lambda>v. vertices p1 ! \<sigma> v) [0..<n'],
                      faces := map (map \<rho>) (faces p1)\<rparr>)"
      "inj_on \<rho> U" "\<rho> ` U = {..<n'}" "\<forall>v \<in> U. \<sigma> (\<rho> v) = v"
    unfolding U_def by blast
  define q where "q = p1\<lparr>vertices := map (\<lambda>v. vs ! \<sigma> v) [0..<n'],
                         faces := map (map \<rho>) faces1\<rparr>"
  have q: "deduplicateVertices eq p = Inr q"
    using dedup core(1) by (simp add: q_def p1_faces p1_vertices)
  have lenq: "length (vertices q) = n'" by (simp add: q_def)
  have vq: "vertices q ! i = vs ! \<sigma> i" if "i < n'" for i
    using that by (simp add: q_def)
  have facesq: "faces q = map (map \<rho>) faces1" by (simp add: q_def)
  have used: "set (vertsInFaces q) = {..<n'}"
  proof -
    have "set (vertsInFaces q) = \<rho> ` U"
      unfolding vertsInFaces_def facesq U_faces by auto
    then show ?thesis using core(3) by simp
  qed
  have validq: "validFaces q"
    unfolding validFaces_def lenq using used by (auto simp: vertsInFaces_def)
  have shape: "\<forall>face \<in> set (faces q). distinct face \<and> 3 \<le> length face"
  proof
    fix face assume "face \<in> set (faces q)"
    then obtain f0 where f0: "f0 \<in> set faces1" "face = map \<rho> f0" by (auto simp: facesq)
    have "set f0 \<subseteq> U" using f0(1) by (auto simp: U_faces)
    then have "inj_on \<rho> (set f0)" using core(2) by (rule inj_on_subset [rotated])
    then show "distinct face \<and> 3 \<le> length face"
      using f1 [OF f0(1)] by (simp add: f0(2) distinct_map)
  qed
  have sig: "\<sigma> j \<in> U \<and> \<rho> (\<sigma> j) = j" if "j < n'" for j
  proof -
    from that core(3) have "j \<in> \<rho> ` U" by simp
    then obtain v where v: "v \<in> U" "\<rho> v = j" by blast
    then have "\<sigma> j = v" using core(4) by auto
    then show ?thesis using v by simp
  qed
  have fresh: "\<forall>i<n'. \<forall>j<i. \<not> eq (vertices q ! i) (vertices q ! j)"
    if sym: "\<forall>a b. eq a b \<longrightarrow> eq b a"
  proof (intro allI impI)
    fix i j assume i': "i < n'" and j: "j < i"
    have j': "j < n'" using i' j by simp
    have ne: "\<sigma> i \<noteq> \<sigma> j"
    proof
      assume "\<sigma> i = \<sigma> j"
      then have "\<rho> (\<sigma> i) = \<rho> (\<sigma> j)" by simp
      then show False using sig [OF i'] sig [OF j'] j by simp
    qed
    have "\<sigma> i \<in> set u" "\<sigma> j \<in> set u" using sig [OF i'] sig [OF j'] U1 by auto
    then have "\<not> eq (vs ! \<sigma> i) (vs ! \<sigma> j)" using apart ne sym by blast
    then show "\<not> eq (vertices q ! i) (vertices q ! j)"
      using vq [OF i'] vq [OF j'] by simp
  qed
  have "set (vertsInFaces q) = {..<length (vertices q)}" using used lenq by simp
  moreover have "(\<forall>a b. eq a b \<longrightarrow> eq b a) \<longrightarrow>
      (\<forall>i<length (vertices q). \<forall>j<i. \<not> eq (vertices q ! i) (vertices q ! j))"
    using fresh lenq by simp
  ultimately show ?thesis
    using q validq shape by blast
qed

lemma deduplicateVertices_fixed:
  fixes q :: "('v, 'x) polyhedron_scheme"
  assumes "validFaces q"
    and "set (vertsInFaces q) = {..<length (vertices q)}"
    and "\<forall>face \<in> set (faces q). distinct face \<and> 3 \<le> length face"
    and "\<forall>i<length (vertices q). \<forall>j<i. \<not> eq (vertices q ! i) (vertices q ! j)"
  shows "deduplicateVertices eq q = Inr q"
proof -
  let ?n = "length (vertices q)"
  have loop: "dedupLoop eq (vertices q) = ([0..<?n], [0..<?n])"
    unfolding dedupLoop_def using assms(4) by (rule dedupLoop_fresh)
  have same: "uniq (map (\<lambda>v. [0..<?n] ! v) face) = face \<and> 3 \<le> length face"
    if "face \<in> set (faces q)" for face
  proof -
    have "\<forall>v \<in> set face. v < ?n" using assms(1) that by (auto simp: validFaces_def)
    then have "map (\<lambda>v. [0..<?n] ! v) face = face" by (simp add: map_idI)
    then show ?thesis using assms(3) that by (simp add: uniq_distinct)
  qed
  have "filter (\<lambda>vIndices. length vIndices \<ge> 3)
          (map (\<lambda>face. uniq (map (\<lambda>v. [0..<?n] ! v) face)) (faces q)) = faces q"
  proof -
    have "map (\<lambda>face. uniq (map (\<lambda>v. [0..<?n] ! v) face)) (faces q) = faces q"
      using same by (simp add: map_idI)
    then show ?thesis using same by simp
  qed
  then have "deduplicateVertices eq q = removeExtraneousVertices q"
    using assms(1) loop by (simp add: deduplicateVertices_def Let_def)
  then show ?thesis
    using removeExtraneousVertices_all_used [OF assms(1,2)] by simp
qed

text \<open>
  Claim C3. \<open>deduplicateVertices\<close> is idempotent: on a polyhedron whose faces name
  existing vertices it returns a polyhedron on which a second application returns the
  same polyhedron. The comparison within tolerance is symmetric.
\<close>

theorem deduplicateVertices_idempotent:
  assumes "validFaces p" and "\<forall>a b. eq a b \<longrightarrow> eq b a"
  shows "\<exists>q. deduplicateVertices eq p = Inr q \<and> deduplicateVertices eq q = Inr q"
proof -
  from deduplicateVertices_result [OF assms(1), of eq] assms(2) obtain q where
    q: "deduplicateVertices eq p = Inr q" "validFaces q"
       "set (vertsInFaces q) = {..<length (vertices q)}"
       "\<forall>face \<in> set (faces q). distinct face \<and> 3 \<le> length face"
       "\<forall>i<length (vertices q). \<forall>j<i. \<not> eq (vertices q ! i) (vertices q ! j)"
    by blast
  from deduplicateVertices_fixed [OF q(2-5)] q(1) show ?thesis by blast
qed


text \<open>
  The witness: an octahedron whose vertices 1 and 2 are at the same place. The first pass
  merges them and drops the two faces that collapse; the second pass returns its input.
\<close>

theorem deduplicateVertices_idempotent_witness:
  "validFaces \<lparr>vertices = [0, 1, 1, 3, 7, 8 :: nat],
               faces = [[0, 1, 4], [1, 2, 4], [2, 3, 4], [3, 0, 4],
                        [1, 0, 5], [2, 1, 5], [3, 2, 5], [0, 3, 5]]\<rparr>
   \<and> deduplicateVertices (=) \<lparr>vertices = [0, 1, 1, 3, 7, 8 :: nat],
               faces = [[0, 1, 4], [1, 2, 4], [2, 3, 4], [3, 0, 4],
                        [1, 0, 5], [2, 1, 5], [3, 2, 5], [0, 3, 5]]\<rparr>
       = Inr \<lparr>vertices = [0, 1, 8, 3, 7],
              faces = [[0, 1, 4], [1, 3, 4], [3, 0, 4], [1, 0, 2], [3, 1, 2], [0, 3, 2]]\<rparr>
   \<and> deduplicateVertices (=) \<lparr>vertices = [0, 1, 8, 3, 7 :: nat],
              faces = [[0, 1, 4], [1, 3, 4], [3, 0, 4], [1, 0, 2], [3, 1, 2], [0, 3, 2]]\<rparr>
       = Inr \<lparr>vertices = [0, 1, 8, 3, 7],
              faces = [[0, 1, 4], [1, 3, 4], [3, 0, 4], [1, 0, 2], [3, 1, 2], [0, 3, 2]]\<rparr>"
proof -
  let ?p = "\<lparr>vertices = [0, 1, 1, 3, 7, 8 :: nat],
               faces = [[0, 1, 4], [1, 2, 4], [2, 3, 4], [3, 0, 4],
                        [1, 0, 5], [2, 1, 5], [3, 2, 5], [0, 3, 5]]\<rparr>"
  let ?q = "\<lparr>vertices = [0, 1, 8, 3, 7 :: nat],
              faces = [[0, 1, 4], [1, 3, 4], [3, 0, 4], [1, 0, 2], [3, 1, 2], [0, 3, 2]]\<rparr>"
  have valid: "validFaces ?p" by code_simp
  have sym: "\<forall>a b :: nat. a = b \<longrightarrow> b = a" by simp
  have first: "deduplicateVertices (=) ?p = Inr ?q" by code_simp
  from deduplicateVertices_idempotent [OF valid sym]
  obtain q where q: "deduplicateVertices (=) ?p = Inr q" "deduplicateVertices (=) q = Inr q"
    by blast
  have "q = ?q" using q(1) first by simp
  then have "deduplicateVertices (=) ?q = Inr ?q" using q(2) by simp
  then show ?thesis using valid first by simp
qed


subsection \<open>duplicateVertices\<close>

lemma position_less: "x \<in> set xs \<Longrightarrow> position x xs < length xs"
  unfolding position_def by (induction xs) auto

lemma nth_position: "x \<in> set xs \<Longrightarrow> xs ! position x xs = x"
  unfolding position_def by (induction xs) auto

lemma position_nth: "distinct xs \<Longrightarrow> i < length xs \<Longrightarrow> position (xs ! i) xs = i"
  using nth_position [of "xs ! i" xs] position_less [of "xs ! i" xs]
  by (simp add: nth_eq_iff_index_eq)

lemma indexed_member: "x \<in> set xs \<Longrightarrow> (position x xs, x) \<in> set (indexed xs)"
  using position_less [of x xs] nth_position [of x xs]
  by (auto simp: indexed_def in_set_zip intro!: exI [of _ "position x xs"])

lemma indexed_fst: "map fst (indexed xs) = [0..<length xs]"
  by (simp add: indexed_def)

lemma indexed_snd: "map snd (indexed xs) = xs"
  by (simp add: indexed_def)

lemma indexed_nth: "i < length xs \<Longrightarrow> indexed xs ! i = (i, xs ! i)"
  by (simp add: indexed_def)

lemma those_map_Some:
  "(\<And>x. x \<in> set xs \<Longrightarrow> g x = Some (h x)) \<Longrightarrow> those (map g xs) = Some (map h xs)"
  by (induction xs) auto

text \<open>
  The entries the two loops write, in the order they are written. The keys are all
  different, so no entry is overwritten and a read finds the one entry of its path.
\<close>

lemma foldl_update_map:
  "foldl (\<lambda>mapping (i, f). AList.update (f, v) (v * count + i) mapping) m0 xs
     = foldl (\<lambda>result (key, value). AList.update key value result) m0
         (map (\<lambda>(i, f). ((f, v), v * count + i)) xs)"
  by (induction xs arbitrary: m0) auto

lemma foldl_update_concat:
  "foldl (\<lambda>mapping v. foldl (\<lambda>result (key, value). AList.update key value result) mapping (g v)) m0 vs
     = foldl (\<lambda>result (key, value). AList.update key value result) m0 (concat (map g vs))"
  by (induction vs arbitrary: m0) auto

lemma entries_keys:
  "map fst (concat (map (\<lambda>v. map (\<lambda>(i, f). ((f, v), v * count + i)) (indexed (adjacentFaces adj v))) [0..<n]))
     = concat (map (\<lambda>v. map (\<lambda>f. (f, v)) (adjacentFaces adj v)) [0..<n])"
proof -
  have one: "map fst (map (\<lambda>(i, f). ((f, v), v * count + i)) (indexed (adjacentFaces adj v)))
          = map (\<lambda>f. (f, v)) (adjacentFaces adj v)" for v
  proof -
    have "map fst (map (\<lambda>(i, f). ((f, v), v * count + i)) (indexed (adjacentFaces adj v)))
            = map (\<lambda>f. (f, v)) (map snd (indexed (adjacentFaces adj v)))"
      by (simp add: case_prod_unfold comp_def)
    then show ?thesis by (simp add: indexed_snd)
  qed
  have "map fst (concat (map (\<lambda>v. map (\<lambda>(i, f). ((f, v), v * count + i)) (indexed (adjacentFaces adj v))) [0..<n]))
      = concat (map (\<lambda>v. map fst (map (\<lambda>(i, f). ((f, v), v * count + i)) (indexed (adjacentFaces adj v)))) [0..<n])"
    by (simp only: map_concat map_map comp_def)
  then show ?thesis by (simp only: one)
qed

lemma keys_distinct:
  assumes "\<forall>v<n. distinct (adjacentFaces adj v)"
  shows "distinct (concat (map (\<lambda>v. map (\<lambda>f. (f, v)) (adjacentFaces adj v)) [0..<n]))
         \<and> (\<forall>k \<in> set (concat (map (\<lambda>v. map (\<lambda>f. (f, v)) (adjacentFaces adj v)) [0..<n])). snd k < n)"
  using assms
proof (induction n)
  case 0
  then show ?case by simp
next
  case (Suc n)
  then have ih: "distinct (concat (map (\<lambda>v. map (\<lambda>f. (f, v)) (adjacentFaces adj v)) [0..<n]))"
    "\<forall>k \<in> set (concat (map (\<lambda>v. map (\<lambda>f. (f, v)) (adjacentFaces adj v)) [0..<n])). snd k < n"
    by simp_all
  have last: "distinct (map (\<lambda>f. (f, n)) (adjacentFaces adj n))"
    using Suc.prems by (simp add: distinct_map inj_on_def)
  show ?case using ih last by (auto simp: less_Suc_eq)
qed

lemma newVertexMapping_entries:
  assumes "\<forall>v<n. distinct (adjacentFaces adj v)"
  shows "newVertexMapping adj n count
           = concat (map (\<lambda>v. map (\<lambda>(i, f). ((f, v), v * count + i)) (indexed (adjacentFaces adj v))) [0..<n])"
    (is "_ = ?entries")
proof -
  have "distinct (map fst ?entries)"
    unfolding entries_keys using keys_distinct [OF assms] by simp
  then have "foldl (\<lambda>result (key, value). AList.update key value result) [] ?entries = ?entries"
    using fromPairs_distinct_aux [of "[]" ?entries] by simp
  then show ?thesis
    by (simp add: newVertexMapping_def foldl_update_map foldl_update_concat)
qed

lemma newVertexMapping_lookup:
  assumes "\<forall>v<n. distinct (adjacentFaces adj v)" and "v < n" and "f \<in> set (adjacentFaces adj v)"
  shows "map_of (newVertexMapping adj n count) (f, v) = Some (duplicateOf adj count f v)"
proof -
  let ?entries = "concat (map (\<lambda>v. map (\<lambda>(i, f). ((f, v), v * count + i)) (indexed (adjacentFaces adj v))) [0..<n])"
  have d: "distinct (map fst ?entries)"
    unfolding entries_keys using keys_distinct [OF assms(1)] by simp
  have "(position f (adjacentFaces adj v), f) \<in> set (indexed (adjacentFaces adj v))"
    using assms(3) by (rule indexed_member)
  then have "((f, v), duplicateOf adj count f v) \<in> set ?entries"
    using assms(2) by (force simp: duplicateOf_def)
  then have "map_of ?entries (f, v) = Some (duplicateOf adj count f v)"
    using d by (rule map_of_is_SomeI [rotated])
  then show ?thesis by (simp only: newVertexMapping_entries [OF assms(1)])
qed


text \<open>
  With an adjacency that fits the polyhedron every read of the mapping finds an entry, and
  the result of \<open>duplicateVertices\<close> has a closed form.
\<close>

lemma consistent_adjacent:
  assumes "consistent p adj" and "validFaces p" and "f < length (faces p)" and "v \<in> set (faces p ! f)"
  shows "v < length (vertices p) \<and> f \<in> set (adjacentFaces adj v)"
proof -
  have "faces p ! f \<in> set (faces p)" using assms(3) by simp
  then have v: "v < length (vertices p)" using assms(2,4) by (auto simp: validFaces_def)
  then have "set (adjacentFaces adj v)
      = set (filter (\<lambda>f. v \<in> set (faces p ! f)) [0..<length (faces p)])"
    using assms(1) by (simp add: consistent_def)
  then show ?thesis using v assms(3,4) by simp
qed

lemma consistent_distinct:
  assumes "consistent p adj"
  shows "\<forall>v<length (vertices p). distinct (adjacentFaces adj v)"
  using assms by (simp add: consistent_def)

lemma edge_paths:
  assumes "path \<in> set (getEdgeFacePaths ((v1, v2), (f1, f2)) twist)" and "(f, v) \<in> set path"
  shows "(f = f1 \<or> f = f2) \<and> (v = v1 \<or> v = v2)"
  using assms by (auto simp: getEdgeFacePaths_def split: if_splits)

lemma consistent_path:
  assumes "consistent p adj" and "validFaces p" and "e \<in> set (edges adj)"
    and "path \<in> set (getEdgeFacePaths e twist)" and "(f, v) \<in> set path"
  shows "v < length (vertices p) \<and> f \<in> set (adjacentFaces adj v)"
proof -
  obtain v1 v2 f1 f2 where e: "e = ((v1, v2), (f1, f2))" by (metis surj_pair)
  have c: "f1 < length (faces p) \<and> f2 < length (faces p)
        \<and> v1 \<in> set (faces p ! f1) \<and> v2 \<in> set (faces p ! f1)
        \<and> v1 \<in> set (faces p ! f2) \<and> v2 \<in> set (faces p ! f2)"
    using assms(1,3) unfolding consistent_def e by fastforce
  have "(f = f1 \<or> f = f2) \<and> (v = v1 \<or> v = v2)"
    using edge_paths assms(4,5) unfolding e by blast
  then have "f < length (faces p) \<and> v \<in> set (faces p ! f)" using c by auto
  then show ?thesis using consistent_adjacent [OF assms(1,2)] by blast
qed

lemma readPaths_duplicates:
  assumes "\<forall>v<n. distinct (adjacentFaces adj v)"
    and "\<And>f v. (f, v) \<in> set path \<Longrightarrow> v < n \<and> f \<in> set (adjacentFaces adj v)"
  shows "readPaths (newVertexMapping adj n count) path
           = Some (map (\<lambda>(f, v). duplicateOf adj count f v) path)"
  unfolding readPaths_def
proof (rule those_map_Some)
  fix x assume x: "x \<in> set path"
  obtain f v where fv: "x = (f, v)" by (cases x)
  have "v < n \<and> f \<in> set (adjacentFaces adj v)" using assms(2) x fv by simp
  then show "map_of (newVertexMapping adj n count) x = Some (case x of (f, v) \<Rightarrow> duplicateOf adj count f v)"
    using newVertexMapping_lookup [OF assms(1)] by (simp add: fv)
qed

lemma duplicateVertices_closed_form:
  fixes p :: "('v, 'x) polyhedron_scheme"
  assumes valid: "validFaces p" and cons: "consistent p adj"
    and start: "getVertex adj < length (vertices p)"
  defines "count \<equiv> length (adjacentFaces adj (getVertex adj))"
  shows "duplicateVertices adj p twist
     = Inr (p\<lparr>vertices := concat (map (replicate count) (vertices p)),
              faces := map (\<lambda>(f, face). map (duplicateOf adj count f) face) (indexed (faces p))
                 @ map (\<lambda>v. [v * count..<(v + 1) * count]) [0..<length (vertices p)]
                 @ concat (map (\<lambda>edge. map (map (\<lambda>(f, v). duplicateOf adj count f v))
                                            (getEdgeFacePaths edge twist)) (edges adj))\<rparr>)"
proof -
  let ?n = "length (vertices p)"
  let ?m = "newVertexMapping adj ?n count"
  note d = consistent_distinct [OF cons]
  have mapped: "those (map (\<lambda>(f, face). readPaths ?m (map (\<lambda>v. (f, v)) face)) (indexed (faces p)))
      = Some (map (\<lambda>(f, face). map (duplicateOf adj count f) face) (indexed (faces p)))"
  proof (rule those_map_Some)
    fix x assume x: "x \<in> set (indexed (faces p))"
    obtain f face where ff: "x = (f, face)" by (cases x)
    have f: "f < length (faces p)" "face = faces p ! f"
      using x unfolding ff indexed_def by (auto simp: in_set_zip)
    have "readPaths ?m (map (\<lambda>v. (f, v)) face)
        = Some (map (\<lambda>(f, v). duplicateOf adj count f v) (map (\<lambda>v. (f, v)) face))"
    proof (rule readPaths_duplicates [OF d])
      fix g v assume "(g, v) \<in> set (map (\<lambda>v. (f, v)) face)"
      then have "g = f" "v \<in> set (faces p ! f)" using f(2) by auto
      then show "v < ?n \<and> g \<in> set (adjacentFaces adj v)"
        using consistent_adjacent [OF cons valid f(1)] by simp
    qed
    then show "(case x of (f, face) \<Rightarrow> readPaths ?m (map (\<lambda>v. (f, v)) face))
        = Some (case x of (f, face) \<Rightarrow> map (duplicateOf adj count f) face)"
      by (simp add: ff comp_def)
  qed
  have bridges: "those (map (readPaths ?m) (concat (map (\<lambda>edge. getEdgeFacePaths edge twist) (edges adj))))
      = Some (map (map (\<lambda>(f, v). duplicateOf adj count f v))
                (concat (map (\<lambda>edge. getEdgeFacePaths edge twist) (edges adj))))"
  proof (rule those_map_Some)
    fix path assume "path \<in> set (concat (map (\<lambda>edge. getEdgeFacePaths edge twist) (edges adj)))"
    then obtain e where e: "e \<in> set (edges adj)" "path \<in> set (getEdgeFacePaths e twist)" by auto
    show "readPaths ?m path = Some (map (\<lambda>(f, v). duplicateOf adj count f v) path)"
    proof (rule readPaths_duplicates [OF d])
      fix f v assume "(f, v) \<in> set path"
      then show "v < ?n \<and> f \<in> set (adjacentFaces adj v)"
        using consistent_path [OF cons valid e] by simp
    qed
  qed
  have flat: "map (map (\<lambda>(f, v). duplicateOf adj count f v))
                (concat (map (\<lambda>edge. getEdgeFacePaths edge twist) (edges adj)))
      = concat (map (\<lambda>edge. map (map (\<lambda>(f, v). duplicateOf adj count f v))
                                            (getEdgeFacePaths edge twist)) (edges adj))"
    by (simp add: map_concat comp_def)
  show ?thesis
    using valid start
    by (simp add: duplicateVertices_def Let_def count_def [symmetric] mapped bridges flat)
qed


lemma length_concat_replicate:
  "length (concat (map (replicate c) xs)) = length xs * c"
  by (induction xs) auto

lemma nth_concat_replicate:
  "v < length xs \<Longrightarrow> i < c \<Longrightarrow> concat (map (replicate c) xs) ! (v * c + i) = xs ! v"
proof (induction xs arbitrary: v)
  case Nil
  then show ?case by simp
next
  case (Cons x xs)
  show ?case
  proof (cases v)
    case 0
    then show ?thesis using Cons.prems by (simp add: nth_append)
  next
    case (Suc w)
    then have "w < length xs" using Cons.prems by simp
    from Cons.IH [OF this Cons.prems(2)] show ?thesis
      by (simp add: Suc nth_append add.assoc)
  qed
qed

lemma duplicateOf_bij:
  assumes "distinct (adjacentFaces adj v)" and "length (adjacentFaces adj v) = count"
  shows "bij_betw (\<lambda>f. duplicateOf adj count f v) (set (adjacentFaces adj v))
           {v * count..<(v + 1) * count}"
proof (rule bij_betwI')
  fix f g assume fg: "f \<in> set (adjacentFaces adj v)" "g \<in> set (adjacentFaces adj v)"
  show "(duplicateOf adj count f v = duplicateOf adj count g v) = (f = g)"
  proof
    assume "duplicateOf adj count f v = duplicateOf adj count g v"
    then have "position f (adjacentFaces adj v) = position g (adjacentFaces adj v)"
      by (simp add: duplicateOf_def)
    then have "adjacentFaces adj v ! position f (adjacentFaces adj v)
        = adjacentFaces adj v ! position g (adjacentFaces adj v)" by (rule arg_cong)
    then show "f = g" by (simp only: nth_position [OF fg(1)] nth_position [OF fg(2)])
  next
    assume "f = g"
    then show "duplicateOf adj count f v = duplicateOf adj count g v" by simp
  qed
next
  fix f assume "f \<in> set (adjacentFaces adj v)"
  then show "duplicateOf adj count f v \<in> {v * count..<(v + 1) * count}"
    using position_less [of f "adjacentFaces adj v"] assms(2) by (simp add: duplicateOf_def)
next
  fix y assume "y \<in> {v * count..<(v + 1) * count}"
  then have y: "v * count \<le> y" "y - v * count < count" by auto
  let ?f = "adjacentFaces adj v ! (y - v * count)"
  have "?f \<in> set (adjacentFaces adj v)" using y assms(2) by simp
  moreover have "position ?f (adjacentFaces adj v) = y - v * count"
    using position_nth [OF assms(1)] y assms(2) by simp
  then have "y = duplicateOf adj count ?f v" using y by (simp add: duplicateOf_def)
  ultimately show "\<exists>f \<in> set (adjacentFaces adj v). y = duplicateOf adj count f v" by blast
qed

lemma getEdgeFacePaths_shape:
  "length (getEdgeFacePaths e twist) = (if twist = Some ''left'' \<or> twist = Some ''right'' then 2 else 1)
   \<and> (\<forall>path \<in> set (getEdgeFacePaths e twist).
         length path = (if twist = Some ''left'' \<or> twist = Some ''right'' then 3 else 4))"
proof -
  obtain v1 v2 f1 f2 where e: "e = ((v1, v2), (f1, f2))" by (metis surj_pair)
  consider "twist = Some ''right''" | "twist = Some ''left''"
    | "twist \<noteq> Some ''right''" "twist \<noteq> Some ''left''" by blast
  then show ?thesis
  proof cases
    case 1
    then show ?thesis by (simp add: getEdgeFacePaths_def e)
  next
    case 2
    then show ?thesis by (simp add: getEdgeFacePaths_def e)
  next
    case 3
    then show ?thesis by (simp add: getEdgeFacePaths_def e)
  qed
qed

lemma length_concat_const:
  "(\<And>x. x \<in> set xs \<Longrightarrow> length (g x) = k) \<Longrightarrow> length (concat (map g xs)) = k * length xs"
  by (induction xs) auto

text \<open>
  Claim C5, as the code has it. Let every vertex have as many adjacent faces as the vertex
  \<open>getVertex\<close> returns, \<open>count\<close>. Then \<open>duplicateVertices\<close> makes \<open>count\<close> copies of every
  vertex, at the position of the vertex; gives the copies of a vertex to its adjacent faces,
  one each; rewrites every old face to the copies it owns; adds, for every vertex, one
  face over its \<open>count\<close> copies; and adds the bridging faces of the edges after that:
  two per edge, of three vertices each, for the twist \<open>left\<close> or \<open>right\<close>, and one per
  edge, of four vertices, otherwise.
\<close>

theorem duplicateVertices_structure:
  fixes p :: "('v, 'x) polyhedron_scheme" and adj :: adjacency and twist :: "string option"
  assumes valid: "validFaces p" and cons: "consistent p adj"
    and start: "getVertex adj < length (vertices p)"
    and uniform: "\<forall>v<length (vertices p).
        length (adjacentFaces adj v) = length (adjacentFaces adj (getVertex adj))"
  defines "count \<equiv> length (adjacentFaces adj (getVertex adj))"
  defines "twisted \<equiv> (twist = Some ''left'' \<or> twist = Some ''right'')"
  shows "\<exists>q. duplicateVertices adj p twist = Inr q
    \<and> length (vertices q) = length (vertices p) * count
    \<and> (\<forall>v<length (vertices p). \<forall>i<count. vertices q ! (v * count + i) = vertices p ! v)
    \<and> (\<forall>v<length (vertices p).
          bij_betw (\<lambda>f. duplicateOf adj count f v) (set (adjacentFaces adj v))
            {v * count..<(v + 1) * count})
    \<and> (\<forall>f<length (faces p). faces q ! f = map (duplicateOf adj count f) (faces p ! f))
    \<and> (\<forall>v<length (vertices p).
          faces q ! (length (faces p) + v) = [v * count..<(v + 1) * count])
    \<and> drop (length (faces p) + length (vertices p)) (faces q)
        = concat (map (\<lambda>edge. map (map (\<lambda>(f, v). duplicateOf adj count f v))
                                  (getEdgeFacePaths edge twist)) (edges adj))
    \<and> length (drop (length (faces p) + length (vertices p)) (faces q))
        = (if twisted then 2 else 1) * length (edges adj)
    \<and> (\<forall>face \<in> set (drop (length (faces p) + length (vertices p)) (faces q)).
          length face = (if twisted then 3 else 4))"
proof -
  let ?n = "length (vertices p)"
  let ?F = "length (faces p)"
  define mapped where "mapped = map (\<lambda>(f, face). map (duplicateOf adj count f) face) (indexed (faces p))"
  define figures where "figures = map (\<lambda>v. [v * count..<(v + 1) * count]) [0..<?n]"
  define bridges where "bridges = concat (map (\<lambda>edge. map (map (\<lambda>(f, v). duplicateOf adj count f v))
                                  (getEdgeFacePaths edge twist)) (edges adj))"
  define q where "q = p\<lparr>vertices := concat (map (replicate count) (vertices p)),
                        faces := mapped @ figures @ bridges\<rparr>"
  have res: "duplicateVertices adj p twist = Inr q"
    unfolding q_def mapped_def figures_def bridges_def count_def
    by (rule duplicateVertices_closed_form [OF valid cons start])
  have vq: "vertices q = concat (map (replicate count) (vertices p))"
    and fq: "faces q = mapped @ figures @ bridges"
    by (simp_all add: q_def)
  have lm: "length mapped = ?F" by (simp add: mapped_def indexed_def)
  have lf: "length figures = ?n" by (simp add: figures_def)
  have c1: "length (vertices q) = ?n * count"
    by (simp add: vq length_concat_replicate)
  have c2: "\<forall>v<?n. \<forall>i<count. vertices q ! (v * count + i) = vertices p ! v"
    by (simp add: vq nth_concat_replicate)
  have c3: "\<forall>v<?n. bij_betw (\<lambda>f. duplicateOf adj count f v) (set (adjacentFaces adj v))
            {v * count..<(v + 1) * count}"
    using consistent_distinct [OF cons] uniform duplicateOf_bij [of adj _ count]
    by (simp add: count_def)
  have c4: "\<forall>f<?F. faces q ! f = map (duplicateOf adj count f) (faces p ! f)"
  proof (intro allI impI)
    fix f assume f: "f < ?F"
    then have "faces q ! f = mapped ! f" by (simp add: fq nth_append lm)
    also have "\<dots> = map (duplicateOf adj count f) (faces p ! f)"
      using f by (simp add: mapped_def indexed_nth indexed_def)
    finally show "faces q ! f = map (duplicateOf adj count f) (faces p ! f)" .
  qed
  have c5: "\<forall>v<?n. faces q ! (?F + v) = [v * count..<(v + 1) * count]"
  proof (intro allI impI)
    fix v assume v: "v < ?n"
    have "faces q ! (?F + v) = (figures @ bridges) ! v"
      by (simp add: fq nth_append lm)
    also have "\<dots> = figures ! v" using v by (simp add: nth_append lf)
    also have "\<dots> = [v * count..<(v + 1) * count]" using v by (simp add: figures_def)
    finally show "faces q ! (?F + v) = [v * count..<(v + 1) * count]" .
  qed
  have c6: "drop (?F + ?n) (faces q) = bridges"
    by (simp add: fq lm lf)
  have c7: "length bridges = (if twisted then 2 else 1) * length (edges adj)"
    unfolding bridges_def
    by (rule length_concat_const) (simp add: getEdgeFacePaths_shape twisted_def)
  have c8: "\<forall>face \<in> set bridges. length face = (if twisted then 3 else 4)"
    using getEdgeFacePaths_shape [of _ twist] by (auto simp: bridges_def twisted_def)
  have c7': "length (drop (?F + ?n) (faces q)) = (if twisted then 2 else 1) * length (edges adj)"
    using c7 by (simp only: c6)
  have c8': "\<forall>face \<in> set (drop (?F + ?n) (faces q)). length face = (if twisted then 3 else 4)"
    using c8 by (simp only: c6)
  show ?thesis
    using res c1 c2 c3 c4 c5 c6 [unfolded bridges_def] c7' c8'
    by (intro exI [of _ q] conjI)
qed


text \<open>The witness: the tetrahedron, three faces at every vertex, twisted left.\<close>

theorem duplicateVertices_structure_witness:
  "validFaces tetrahedron \<and> consistent tetrahedron tetrahedronAdjacency
   \<and> duplicateVertices tetrahedronAdjacency tetrahedron (Some ''left'')
       = Inr \<lparr>vertices = [''a'', ''a'', ''a'', ''b'', ''b'', ''b'', ''c'', ''c'', ''c'',
                          ''d'', ''d'', ''d''],
              faces = [[0, 3, 6], [1, 9, 5], [2, 7, 11], [4, 10, 8],
                       [0, 1, 2], [3, 4, 5], [6, 7, 8], [9, 10, 11],
                       [3, 0, 1], [1, 5, 3], [6, 0, 2], [2, 7, 6], [9, 1, 2], [2, 11, 9],
                       [6, 3, 4], [4, 8, 6], [9, 5, 4], [4, 10, 9], [11, 7, 8], [8, 10, 11]]\<rparr>
   \<and> length (drop (4 + 4) [[0, 3, 6], [1, 9, 5], [2, 7, 11], [4, 10, 8],
                       [0, 1, 2], [3, 4, 5], [6, 7, 8], [9, 10, 11],
                       [3, 0, 1], [1, 5, 3], [6, 0, 2], [2, 7, 6], [9, 1, 2], [2, 11, 9],
                       [6, 3, 4], [4, 8, 6], [9, 5, 4], [4, 10, 9], [11, 7, 8], [8, 10, 11 :: nat]])
       = 2 * length (edges tetrahedronAdjacency)"
proof -
  let ?q = "\<lparr>vertices = [''a'', ''a'', ''a'', ''b'', ''b'', ''b'', ''c'', ''c'', ''c'',
                          ''d'', ''d'', ''d''],
              faces = [[0, 3, 6], [1, 9, 5], [2, 7, 11], [4, 10, 8],
                       [0, 1, 2], [3, 4, 5], [6, 7, 8], [9, 10, 11],
                       [3, 0, 1], [1, 5, 3], [6, 0, 2], [2, 7, 6], [9, 1, 2], [2, 11, 9],
                       [6, 3, 4], [4, 8, 6], [9, 5, 4], [4, 10, 9], [11, 7, 8], [8, 10, 11 :: nat]]\<rparr>"
  have valid: "validFaces tetrahedron" by code_simp
  have cons: "consistent tetrahedron tetrahedronAdjacency" by code_simp
  have start: "getVertex tetrahedronAdjacency < length (vertices tetrahedron)" by code_simp
  have uniform: "\<forall>v<length (vertices tetrahedron).
      length (adjacentFaces tetrahedronAdjacency v)
        = length (adjacentFaces tetrahedronAdjacency (getVertex tetrahedronAdjacency))"
    by (simp add: tetrahedronAdjacency_def)
  have run: "duplicateVertices tetrahedronAdjacency tetrahedron (Some ''left'') = Inr ?q"
    by code_simp
  from duplicateVertices_structure [OF valid cons start uniform, of "Some ''left''"]
  obtain q where q: "duplicateVertices tetrahedronAdjacency tetrahedron (Some ''left'') = Inr q"
    and bridges: "length (drop (length (faces tetrahedron) + length (vertices tetrahedron)) (faces q))
        = (if Some ''left'' = Some ''left'' \<or> Some ''left'' = Some ''right'' then 2 else 1)
            * length (edges tetrahedronAdjacency)"
    by blast
  have "q = ?q" using q run by simp
  moreover have "length (faces tetrahedron) = 4" "length (vertices tetrahedron) = 4"
    by (simp_all add: tetrahedron_def)
  ultimately have "length (drop (4 + 4) (faces ?q)) = 2 * length (edges tetrahedronAdjacency)"
    using bridges by simp
  then show ?thesis using valid cons run by simp
qed

text \<open>
  Whatever adjacency is handed in, and whichever vertex it starts from, the result has the
  same number of copies for every vertex: on the square pyramid never the 16 that one
  copy per vertex and adjacent face would need.
\<close>

lemma duplicateVertices_vertex_count:
  assumes "duplicateVertices adj p twist = Inr q"
  shows "length (vertices q) = length (vertices p) * length (adjacentFaces adj (getVertex adj))"
proof -
  have "vertices q = concat (map (replicate (length (adjacentFaces adj (getVertex adj)))) (vertices p))"
    using assms
    by (auto simp: duplicateVertices_def Let_def split: if_splits option.splits)
  then show ?thesis by (simp add: length_concat_replicate)
qed

lemma duplicateVertices_pyramid_any_adjacency:
  assumes "duplicateVertices adj squarePyramid twist = Inr q"
  shows "length (vertices q) \<noteq> 4 + 3 + 3 + 3 + 3"
proof -
  have "length (vertices q) = 5 * length (adjacentFaces adj (getVertex adj))"
    using duplicateVertices_vertex_count [OF assms] by (simp add: squarePyramid_def)
  then show ?thesis by presburger
qed

text \<open>
  Claim C5 as stated speaks of every polyhedron and of \<open>k\<close> copies for a vertex with \<open>k\<close>
  adjacent faces. The number of copies is that of the first vertex for all: on the square
  pyramid, whose apex lies on four faces and whose first vertex lies on three, the apex
  gets three copies, and the fourth face at the apex is given the index 15, one past the
  last copy.
\<close>

theorem duplicateVertices_pyramid_counterexample:
  "validFaces squarePyramid \<and> consistent squarePyramid squarePyramidAdjacency
   \<and> length (adjacentFaces squarePyramidAdjacency 4) = 4
   \<and> vertices squarePyramid ! 4 = ''apex''
   \<and> duplicateVertices squarePyramidAdjacency squarePyramid None
       = Inr \<lparr>vertices = [''b0'', ''b0'', ''b0'', ''b1'', ''b1'', ''b1'', ''b2'', ''b2'', ''b2'',
                          ''b3'', ''b3'', ''b3'', ''apex'', ''apex'', ''apex''],
              faces = [[9, 6, 3, 0], [1, 5, 12], [4, 8, 13], [7, 11, 14], [10, 2, 15],
                       [0, 1, 2], [3, 4, 5], [6, 7, 8], [9, 10, 11], [12, 13, 14],
                       [3, 0, 1, 5], [6, 3, 4, 8], [9, 6, 7, 11], [0, 9, 10, 2],
                       [15, 2, 1, 12], [12, 5, 4, 13], [13, 8, 7, 14], [14, 11, 10, 15]]\<rparr>
   \<and> length (filter (\<lambda>position. position = ''apex'')
        [''b0'', ''b0'', ''b0'', ''b1'', ''b1'', ''b1'', ''b2'', ''b2'', ''b2'',
         ''b3'', ''b3'', ''b3'', ''apex'', ''apex'', ''apex'']) = 3"
  by code_simp


subsection \<open>The structural invariants\<close>

text \<open>
  Re-indexing the faces by a map that is injective on the vertices they name keeps every
  invariant: the distinct vertices of a face stay distinct, and an edge lies on as many
  faces after as before.
\<close>

lemma faceEdges_map: "faceEdges (map g face) = map (\<lambda>(a, b). (g a, g b)) (faceEdges face)"
  by (simp add: faceEdges_def rotate1_map zip_map_map)

lemma faceEdges_subset:
  assumes "(a, b) \<in> set (faceEdges face)"
  shows "a \<in> set face \<and> b \<in> set face"
proof -
  have "a \<in> set face" "b \<in> set (rotate1 face)"
    using assms unfolding faceEdges_def by (auto dest: set_zip_leftD set_zip_rightD)
  then show ?thesis by simp
qed

lemma edgeInFace_map:
  assumes inj: "inj_on g U" and "a \<in> U" "b \<in> U" "set face \<subseteq> U"
  shows "edgeInFace (g a, g b) (map g face) = edgeInFace (a, b) face"
proof -
  have mem: "((g x, g y) \<in> set (faceEdges (map g face))) = ((x, y) \<in> set (faceEdges face))"
    if "x \<in> U" "y \<in> U" for x y
  proof
    assume "(g x, g y) \<in> set (faceEdges (map g face))"
    then obtain c d where cd: "(c, d) \<in> set (faceEdges face)" "g c = g x" "g d = g y"
      by (auto simp: faceEdges_map)
    have "c \<in> U" "d \<in> U" using faceEdges_subset [OF cd(1)] assms(4) by auto
    then have "c = x" "d = y" using inj cd(2,3) that by (auto dest: inj_onD)
    then show "(x, y) \<in> set (faceEdges face)" using cd(1) by simp
  next
    assume "(x, y) \<in> set (faceEdges face)"
    then show "(g x, g y) \<in> set (faceEdges (map g face))"
      by (force simp: faceEdges_map)
  qed
  show ?thesis
    using mem [OF assms(2,3)] mem [OF assms(3,2)] by (simp add: edgeInFace_def)
qed

lemma facesAtEdge_map:
  assumes inj: "inj_on g U" and "a \<in> U" "b \<in> U" "\<forall>face \<in> set fs. set face \<subseteq> U"
  shows "facesAtEdge (map (map g) fs) (g a, g b) = facesAtEdge fs (a, b)"
proof -
  have "filter (edgeInFace (g a, g b) \<circ> map g) fs = filter (edgeInFace (a, b)) fs"
    by (rule filter_cong) (use edgeInFace_map [OF inj assms(2,3)] assms(4) in auto)
  then have "length (filter (edgeInFace (g a, g b)) (map (map g) fs))
      = length (filter (edgeInFace (a, b)) fs)"
    by (simp add: filter_map)
  then show ?thesis by (simp add: facesAtEdge_def)
qed

lemma length_remdups_map_inj:
  assumes "inj_on g (set xs)"
  shows "length (remdups (map g xs)) = length (remdups xs)"
proof -
  have "card (g ` set xs) = card (set xs)" using assms by (rule card_image)
  then show ?thesis by (simp add: length_remdups_card_conv)
qed

lemma relabel_wellFormed:
  fixes p :: "('v, 'x) polyhedron_scheme" and q :: "('v, 'x) polyhedron_scheme"
  assumes wf: "wellFormed p"
    and fq: "faces q = map (map g) (faces p)"
    and inj: "inj_on g (set (vertsInFaces p))"
    and img: "g ` set (vertsInFaces p) \<subseteq> {..<length (vertices q)}"
  shows "wellFormed q"
proof -
  let ?U = "set (vertsInFaces p)"
  have sub: "\<forall>face \<in> set (faces p). set face \<subseteq> ?U"
    by (auto simp: vertsInFaces_def)
  have valid: "validFaces q"
    unfolding validFaces_def fq using img sub by auto
  have three: "threeDistinct q"
    unfolding threeDistinct_def fq
  proof
    fix face assume "face \<in> set (map (map g) (faces p))"
    then obtain f0 where f0: "f0 \<in> set (faces p)" "face = map g f0" by auto
    have "inj_on g (set f0)" using inj sub f0(1) by (meson inj_on_subset)
    then have "length (remdups face) = length (remdups f0)"
      unfolding f0(2) by (rule length_remdups_map_inj)
    then show "3 \<le> length (remdups face)"
      using wf f0(1) by (simp add: wellFormed_def threeDistinct_def)
  qed
  have manifold: "closedManifold q"
    unfolding closedManifold_def fq
  proof (intro ballI)
    fix face e assume "face \<in> set (map (map g) (faces p))" and e: "e \<in> set (faceEdges face)"
    then obtain f0 where f0: "f0 \<in> set (faces p)" "face = map g f0" by auto
    from e obtain a b where ab: "(a, b) \<in> set (faceEdges f0)" "e = (g a, g b)"
      unfolding f0(2) faceEdges_map by auto
    have "a \<in> ?U" "b \<in> ?U" using faceEdges_subset [OF ab(1)] sub f0(1) by auto
    then have "facesAtEdge (map (map g) (faces p)) (g a, g b) = facesAtEdge (faces p) (a, b)"
      using facesAtEdge_map [OF inj _ _ sub] by blast
    also have "\<dots> = 2"
      using wf f0(1) ab(1) by (auto simp: wellFormed_def closedManifold_def)
    finally show "facesAtEdge (map (map g) (faces p)) e = 2" by (simp add: ab(2))
  qed
  show ?thesis using valid three manifold by (simp add: wellFormed_def)
qed

lemma removeExtraneousVertices_wellFormed:
  fixes p :: "('v, 'x) polyhedron_scheme"
  assumes "wellFormed p"
  shows "\<exists>q. removeExtraneousVertices p = Inr q \<and> wellFormed q"
proof -
  have valid: "validFaces p" using assms by (simp add: wellFormed_def)
  from reindex_exists [OF valid] obtain \<rho> \<sigma> n' where
    core: "removeExtraneousVertices p
             = Inr (p\<lparr>vertices := map (\<lambda>v. vertices p ! \<sigma> v) [0..<n'],
                      faces := map (map \<rho>) (faces p)\<rparr>)"
      "inj_on \<rho> (set (vertsInFaces p))" "\<rho> ` set (vertsInFaces p) = {..<n'}"
    by blast
  define q where "q = p\<lparr>vertices := map (\<lambda>v. vertices p ! \<sigma> v) [0..<n'],
                      faces := map (map \<rho>) (faces p)\<rparr>"
  have "faces q = map (map \<rho>) (faces p)" "length (vertices q) = n'" by (simp_all add: q_def)
  then have "wellFormed q"
    using relabel_wellFormed [OF assms _ core(2), of q] core(3) by simp
  then show ?thesis using core(1) q_def by blast
qed

text \<open>
  \<open>duplicateVertices\<close>: when every vertex has \<open>count\<close> adjacent faces, a face and one of
  its vertices determine the duplicate and the duplicate determines both, so the old
  faces and the bridging faces keep their vertices apart, inside the new vertex list.
\<close>

lemma duplicateOf_less:
  assumes "v < n" and "f \<in> set (adjacentFaces adj v)" and "length (adjacentFaces adj v) = count"
  shows "duplicateOf adj count f v < n * count"
proof -
  have "position f (adjacentFaces adj v) < count"
    using position_less [OF assms(2)] assms(3) by simp
  then have "duplicateOf adj count f v < (v + 1) * count" by (simp add: duplicateOf_def)
  also have "\<dots> \<le> n * count" using assms(1) by (intro mult_le_mono1) simp
  finally show ?thesis .
qed

lemma duplicateOf_inj:
  assumes "f \<in> set (adjacentFaces adj v)" "length (adjacentFaces adj v) = count"
    and "g \<in> set (adjacentFaces adj w)" "length (adjacentFaces adj w) = count"
    and eq: "duplicateOf adj count f v = duplicateOf adj count g w"
  shows "v = w \<and> f = g"
proof -
  have pf: "position f (adjacentFaces adj v) < count"
    using position_less [OF assms(1)] assms(2) by simp
  have pg: "position g (adjacentFaces adj w) < count"
    using position_less [OF assms(3)] assms(4) by simp
  have "(v * count + position f (adjacentFaces adj v)) div count = v"
    using pf by simp
  moreover have "(w * count + position g (adjacentFaces adj w)) div count = w"
    using pg by simp
  ultimately have vw: "v = w" using eq by (simp add: duplicateOf_def)
  then have "position f (adjacentFaces adj v) = position g (adjacentFaces adj v)"
    using eq by (simp add: duplicateOf_def)
  then have "adjacentFaces adj v ! position f (adjacentFaces adj v)
      = adjacentFaces adj v ! position g (adjacentFaces adj v)" by (rule arg_cong)
  then have "f = g"
    using assms(3) by (simp only: nth_position [OF assms(1)] vw [symmetric] nth_position)
  then show ?thesis using vw by simp
qed

lemma duplicateVertices_valid_three:
  fixes p :: "('v, 'x) polyhedron_scheme" and adj :: adjacency and twist :: "string option"
  assumes valid: "validFaces p" and three: "threeDistinct p" and cons: "consistent p adj"
    and start: "getVertex adj < length (vertices p)"
    and uniform: "\<forall>v<length (vertices p).
        length (adjacentFaces adj v) = length (adjacentFaces adj (getVertex adj))"
    and count3: "3 \<le> length (adjacentFaces adj (getVertex adj))"
  shows "\<exists>q. duplicateVertices adj p twist = Inr q \<and> validFaces q \<and> threeDistinct q"
proof -
  define count where "count = length (adjacentFaces adj (getVertex adj))"
  let ?n = "length (vertices p)"
  define dup where "dup = (\<lambda>(f, v). duplicateOf adj count f v)"
  define mapped where "mapped = map (\<lambda>(f, face). map (duplicateOf adj count f) face) (indexed (faces p))"
  define figures where "figures = map (\<lambda>v. [v * count..<(v + 1) * count]) [0..<?n]"
  define bridges where "bridges = concat (map (\<lambda>edge. map (map dup)
                                  (getEdgeFacePaths edge twist)) (edges adj))"
  define q where "q = p\<lparr>vertices := concat (map (replicate count) (vertices p)),
                        faces := mapped @ figures @ bridges\<rparr>"
  have res: "duplicateVertices adj p twist = Inr q"
    unfolding q_def mapped_def figures_def bridges_def count_def dup_def
    by (rule duplicateVertices_closed_form [OF valid cons start])
  have lq: "length (vertices q) = ?n * count"
    by (simp add: q_def length_concat_replicate)
  have fq: "set (faces q) = set mapped \<union> set figures \<union> set bridges"
    by (auto simp: q_def)
  have len: "length (adjacentFaces adj v) = count" if "v < ?n" for v
    using uniform that by (simp add: count_def)
  have ok: "duplicateOf adj count f v < ?n * count" if "v < ?n" "f \<in> set (adjacentFaces adj v)" for f v
    using duplicateOf_less [OF that len [OF that(1)]] .
  txt \<open>the old faces\<close>
  have m: "(\<forall>x \<in> set face. x < ?n * count) \<and> 3 \<le> length (remdups face)" if "face \<in> set mapped" for face
  proof -
    from that obtain f where f: "f < length (faces p)" "face = map (duplicateOf adj count f) (faces p ! f)"
      by (auto simp: mapped_def indexed_def in_set_zip)
    have adm: "v < ?n \<and> f \<in> set (adjacentFaces adj v)" if "v \<in> set (faces p ! f)" for v
      using consistent_adjacent [OF cons valid f(1) that] .
    have inj: "inj_on (duplicateOf adj count f) (set (faces p ! f))"
    proof (rule inj_onI)
      fix v w assume "v \<in> set (faces p ! f)" "w \<in> set (faces p ! f)"
        "duplicateOf adj count f v = duplicateOf adj count f w"
      then show "v = w"
        using duplicateOf_inj [of f adj v count f w] adm len by blast
    qed
    have "3 \<le> length (remdups (faces p ! f))"
      using three f(1) by (simp add: threeDistinct_def)
    then have "3 \<le> length (remdups face)"
      unfolding f(2) using length_remdups_map_inj [OF inj] by simp
    moreover have "\<forall>x \<in> set face. x < ?n * count"
      unfolding f(2) using adm ok by auto
    ultimately show ?thesis by simp
  qed
  txt \<open>the faces of the vertices\<close>
  have g: "(\<forall>x \<in> set face. x < ?n * count) \<and> 3 \<le> length (remdups face)" if "face \<in> set figures" for face
  proof -
    from that obtain v where v: "v < ?n" "face = [v * count..<(v + 1) * count]"
      by (auto simp: figures_def)
    have "(v + 1) * count \<le> ?n * count" using v(1) by (intro mult_le_mono1) simp
    then have "\<forall>x \<in> set face. x < ?n * count" by (auto simp: v(2))
    moreover have "length (remdups face) = count" by (simp add: v(2))
    ultimately show ?thesis using count3 by (simp add: count_def)
  qed
  txt \<open>the bridging faces\<close>
  have b: "(\<forall>x \<in> set face. x < ?n * count) \<and> 3 \<le> length (remdups face)" if "face \<in> set bridges" for face
  proof -
    from that obtain e path where e: "e \<in> set (edges adj)" "path \<in> set (getEdgeFacePaths e twist)"
      "face = map dup path"
      by (auto simp: bridges_def)
    have adm: "v < ?n \<and> f \<in> set (adjacentFaces adj v)" if "(f, v) \<in> set path" for f v
      using consistent_path [OF cons valid e(1,2) that] .
    have inj: "inj_on dup (set path)"
    proof (rule inj_onI)
      fix x y assume xy: "x \<in> set path" "y \<in> set path" "dup x = dup y"
      obtain f v where x: "x = (f, v)" by (cases x)
      obtain h w where y: "y = (h, w)" by (cases y)
      have "v = w \<and> f = h"
        using duplicateOf_inj [of f adj v count h w] adm xy len unfolding x y dup_def by auto
      then show "x = y" by (simp add: x y)
    qed
    obtain v1 v2 f1 f2 where ed: "e = ((v1, v2), (f1, f2))" by (metis surj_pair)
    have ne: "v1 \<noteq> v2" "f1 \<noteq> f2"
      using cons e(1) unfolding consistent_def ed by fastforce+
    have "distinct path \<and> 3 \<le> length path"
      using e(2) ne unfolding ed getEdgeFacePaths_def by (auto split: if_splits)
    then have "distinct face \<and> 3 \<le> length face"
      unfolding e(3) using inj by (simp add: distinct_map)
    then have "3 \<le> length (remdups face)" by (simp add: distinct_remdups_id)
    moreover have "\<forall>x \<in> set face. x < ?n * count"
      unfolding e(3) dup_def using adm ok by auto
    ultimately show ?thesis by simp
  qed
  have "validFaces q"
    unfolding validFaces_def lq fq using m g b by blast
  moreover have "threeDistinct q"
    unfolding threeDistinct_def fq using m g b by blast
  ultimately show ?thesis using res by blast
qed

text \<open>
  \<open>duplicateVertices\<close> and the edges. Counting the faces at an edge goes through the
  paths \<open>[face, vertex]\<close> that the faces of the result are read from, which the mapping
  sends to the new vertices one to one.
\<close>

lemma edgeInFace_sym: "edgeInFace (a, b) face = edgeInFace (b, a) face"
  by (auto simp: edgeInFace_def)

lemma facesAtEdge_sym: "facesAtEdge fs (a, b) = facesAtEdge fs (b, a)"
  unfolding facesAtEdge_def using edgeInFace_sym [of a b] by presburger

lemma sameEdge_sym: "sameEdge (a, b) e = sameEdge (b, a) e"
  by (auto simp: sameEdge_def)

lemma edgeInFace_sameEdge: "sameEdge e e' \<Longrightarrow> edgeInFace e' face = edgeInFace e face"
  by (auto simp: sameEdge_def edgeInFace_def)

lemma edgeInFace_members: "edgeInFace (a, b) face \<Longrightarrow> a \<in> set face \<and> b \<in> set face"
  using faceEdges_subset by (fastforce simp: edgeInFace_def)

lemma facesAtEdge_append: "facesAtEdge (fs @ gs) e = facesAtEdge fs e + facesAtEdge gs e"
  by (simp add: facesAtEdge_def)

lemma facesAtEdge_concat:
  "facesAtEdge (concat (map h es)) e = sum_list (map (\<lambda>x. facesAtEdge (h x) e) es)"
  by (induction es) (simp_all add: facesAtEdge_def)

lemma sum_list_indicator:
  "sum_list (map (\<lambda>x. if R x then k else 0) es) = k * length (filter R es)"
  by (induction es) simp_all

lemma count_index:
  "length (filter (\<lambda>i. i = k \<and> Q i) [0..<n]) = (if k < n \<and> Q k then 1 else 0)"
  by (induction n) auto

lemma facesAtEdge_indexed:
  "facesAtEdge (map h [0..<n]) e = length (filter (\<lambda>i. edgeInFace e (h i)) [0..<n])"
  by (simp add: facesAtEdge_def filter_map comp_def)

lemma facesAtEdge_nth:
  "facesAtEdge fs e = length (filter (\<lambda>i. edgeInFace e (fs ! i)) [0..<length fs])"
proof -
  have "fs = map (\<lambda>i. fs ! i) [0..<length fs]" by (simp add: map_nth)
  then have "facesAtEdge fs e = facesAtEdge (map (\<lambda>i. fs ! i) [0..<length fs]) e" by simp
  then show ?thesis by (simp only: facesAtEdge_indexed)
qed

lemma filter_unique:
  assumes "length (filter R xs) = 1" and "x0 \<in> set xs" and "Q x0"
    and "\<And>x. x \<in> set xs \<Longrightarrow> Q x \<Longrightarrow> R x"
  shows "length (filter Q xs) = 1"
proof -
  obtain y where y: "filter R xs = [y]"
    using assms(1) by (cases "filter R xs") auto
  have "x0 \<in> set (filter R xs)" using assms(2,3,4) by simp
  then have "y = x0" by (simp add: y)
  have "filter Q xs = filter Q (filter R xs)"
    using assms(4) by (auto intro: filter_cong)
  then show ?thesis using assms(3) by (simp add: y \<open>y = x0\<close>)
qed

lemma two_faces:
  assumes "facesAtEdge fs e = 2"
    and "f1 < length fs" "f2 < length fs" "f < length fs" and "f1 \<noteq> f2"
    and "edgeInFace e (fs ! f1)" "edgeInFace e (fs ! f2)" "edgeInFace e (fs ! f)"
  shows "f = f1 \<or> f = f2"
proof (rule ccontr)
  assume n: "\<not> (f = f1 \<or> f = f2)"
  let ?S = "{i. i < length fs \<and> edgeInFace e (fs ! i)}"
  have "set (filter (\<lambda>i. edgeInFace e (fs ! i)) [0..<length fs]) = ?S" by auto
  moreover have "distinct (filter (\<lambda>i. edgeInFace e (fs ! i)) [0..<length fs])" by simp
  ultimately have "card ?S = length (filter (\<lambda>i. edgeInFace e (fs ! i)) [0..<length fs])"
    using distinct_card by metis
  then have "card ?S = 2"
    using assms(1) by (simp only: facesAtEdge_nth [of fs e])
  moreover have "{f, f1, f2} \<subseteq> ?S" using assms by simp
  moreover have "finite ?S" by simp
  ultimately have "card {f, f1, f2} \<le> 2" by (metis card_mono)
  then show False using n assms(5) by simp
qed

lemma edgeInFace_facePath:
  "edgeInFace ((f, v), (g, w)) (map (\<lambda>v. (h, v)) face) = (h = f \<and> f = g \<and> edgeInFace (v, w) face)"
proof (cases "h = f \<and> f = g")
  case True
  have "inj_on (\<lambda>v. (h, v)) UNIV" by (simp add: inj_on_def)
  from edgeInFace_map [OF this, of v w face] show ?thesis using True by simp
next
  case False
  have "\<not> edgeInFace ((f, v), (g, w)) (map (\<lambda>v. (h, v)) face)"
  proof
    assume "edgeInFace ((f, v), (g, w)) (map (\<lambda>v. (h, v)) face)"
    from edgeInFace_members [OF this] show False using False by auto
  qed
  then show ?thesis using False by blast
qed

lemma edgeInFace_vertexPath:
  "edgeInFace ((f, v), (g, w)) (map (\<lambda>f. (f, u)) fs) = (u = v \<and> v = w \<and> edgeInFace (f, g) fs)"
proof (cases "u = v \<and> v = w")
  case True
  have "inj_on (\<lambda>f. (f, u)) UNIV" by (simp add: inj_on_def)
  from edgeInFace_map [OF this, of f g fs] show ?thesis using True by simp
next
  case False
  have "\<not> edgeInFace ((f, v), (g, w)) (map (\<lambda>f. (f, u)) fs)"
  proof
    assume "edgeInFace ((f, v), (g, w)) (map (\<lambda>f. (f, u)) fs)"
    from edgeInFace_members [OF this] show False using False by auto
  qed
  then show ?thesis using False by blast
qed

lemma facesAtEdge_facePaths:
  "facesAtEdge (facePaths p) ((f, v), (g, w))
     = (if f = g \<and> f < length (faces p) \<and> edgeInFace (v, w) (faces p ! f) then 1 else 0)"
proof -
  have "facesAtEdge (facePaths p) ((f, v), (g, w))
      = length (filter (\<lambda>h. h = f \<and> (f = g \<and> edgeInFace (v, w) (faces p ! h))) [0..<length (faces p)])"
    unfolding facePaths_def facesAtEdge_indexed by (simp only: edgeInFace_facePath)
  also have "\<dots> = (if f < length (faces p) \<and> (f = g \<and> edgeInFace (v, w) (faces p ! f)) then 1 else 0)"
    by (rule count_index)
  finally show ?thesis by (simp cong: conj_cong)
qed

lemma facesAtEdge_vertexPaths:
  "facesAtEdge (vertexPaths adj n) ((f, v), (g, w))
     = (if v = w \<and> v < n \<and> edgeInFace (f, g) (adjacentFaces adj v) then 1 else 0)"
proof -
  have "facesAtEdge (vertexPaths adj n) ((f, v), (g, w))
      = length (filter (\<lambda>u. u = v \<and> (v = w \<and> edgeInFace (f, g) (adjacentFaces adj u))) [0..<n])"
    unfolding vertexPaths_def facesAtEdge_indexed by (simp only: edgeInFace_vertexPath)
  also have "\<dots> = (if v < n \<and> (v = w \<and> edgeInFace (f, g) (adjacentFaces adj v)) then 1 else 0)"
    by (rule count_index)
  finally show ?thesis by (simp cong: conj_cong)
qed

text \<open>
  The bridging faces of one edge: how many of them hold an edge of an old face, an edge
  of a vertex face, and the diagonal of a twist.
\<close>

lemma bridge_count_face_edge:
  assumes "v \<noteq> w" "v1 \<noteq> v2" "f1 \<noteq> f2"
  shows "facesAtEdge (getEdgeFacePaths ((v1, v2), (f1, f2)) twist) ((f, v), (f, w))
     = (if sameEdge (v, w) (v1, v2) \<and> (f = f1 \<or> f = f2) then 1 else 0)"
  using assms
  by (auto simp: getEdgeFacePaths_def facesAtEdge_def edgeInFace_def faceEdges_def sameEdge_def)

lemma bridge_count_vertex_edge:
  assumes "f \<noteq> g" "v1 \<noteq> v2" "f1 \<noteq> f2"
  shows "facesAtEdge (getEdgeFacePaths ((v1, v2), (f1, f2)) twist) ((f, v), (g, v))
     = (if (v1 = v \<or> v2 = v) \<and> sameEdge (f, g) (f1, f2) then 1 else 0)"
  using assms
  by (auto simp: getEdgeFacePaths_def facesAtEdge_def edgeInFace_def faceEdges_def sameEdge_def)

lemma bridge_count_diagonal_right:
  assumes "f \<noteq> g" "v \<noteq> w" "v1 \<noteq> v2" "f1 \<noteq> f2"
  shows "facesAtEdge (getEdgeFacePaths ((v1, v2), (f1, f2)) (Some ''right'')) ((f, v), (g, w))
     = (if sameEdge ((f, v), (g, w)) ((f1, v1), (f2, v2)) then 2 else 0)"
  using assms
  by (auto simp: getEdgeFacePaths_def facesAtEdge_def edgeInFace_def faceEdges_def sameEdge_def)

lemma bridge_count_diagonal_left:
  assumes "f \<noteq> g" "v \<noteq> w" "v1 \<noteq> v2" "f1 \<noteq> f2"
  shows "facesAtEdge (getEdgeFacePaths ((v1, v2), (f1, f2)) (Some ''left'')) ((f, v), (g, w))
     = (if sameEdge ((f, v), (g, w)) ((f1, v2), (f2, v1)) then 2 else 0)"
  using assms
  by (auto simp: getEdgeFacePaths_def facesAtEdge_def edgeInFace_def faceEdges_def sameEdge_def)

text \<open>
  With a coherent adjacency an edge of an old face lies on that face and one bridging
  face, an edge of a vertex face on that face and one bridging face, and the diagonal of a
  twist on the two triangles of its edge.
\<close>

lemma edge_entry:
  fixes p :: "('v, 'x) polyhedron_scheme"
  assumes valid: "validFaces p" and cons: "consistent p adj" and coh: "coherent p adj"
    and e: "((v1, v2), (f1, f2)) \<in> set (edges adj)"
  shows "v1 \<noteq> v2" "f1 \<noteq> f2" "f1 < length (faces p)" "f2 < length (faces p)"
    "v1 < length (vertices p)" "v2 < length (vertices p)"
    "edgeInFace (v1, v2) (faces p ! f1)" "edgeInFace (v1, v2) (faces p ! f2)"
    "edgeInFace (f1, f2) (adjacentFaces adj v1)" "edgeInFace (f1, f2) (adjacentFaces adj v2)"
proof -
  have c: "v1 \<noteq> v2 \<and> f1 \<noteq> f2 \<and> f1 < length (faces p) \<and> f2 < length (faces p)
        \<and> v1 \<in> set (faces p ! f1) \<and> v2 \<in> set (faces p ! f1)"
    using cons e unfolding consistent_def by fastforce
  show "v1 \<noteq> v2" "f1 \<noteq> f2" "f1 < length (faces p)" "f2 < length (faces p)"
    using c by simp_all
  show "v1 < length (vertices p)" "v2 < length (vertices p)"
    using consistent_adjacent [OF cons valid, of f1] c by simp_all
  have h: "edgeInFace (v1, v2) (faces p ! f1) \<and> edgeInFace (v1, v2) (faces p ! f2)
        \<and> edgeInFace (f1, f2) (adjacentFaces adj v1) \<and> edgeInFace (f1, f2) (adjacentFaces adj v2)"
    using coh e unfolding coherent_def by fastforce
  show "edgeInFace (v1, v2) (faces p ! f1)" "edgeInFace (v1, v2) (faces p ! f2)"
    "edgeInFace (f1, f2) (adjacentFaces adj v1)" "edgeInFace (f1, f2) (adjacentFaces adj v2)"
    using h by simp_all
qed

lemma coherent_face_edge:
  fixes p :: "('v, 'x) polyhedron_scheme"
  assumes coh: "coherent p adj" and f: "f < length (faces p)"
    and e: "edgeInFace (v, w) (faces p ! f)"
  shows "length (filter (\<lambda>e. sameEdge (v, w) (fst e)) (edges adj)) = 1"
proof -
  have face: "faces p ! f \<in> set (faces p)" using f by simp
  have h: "length (filter (\<lambda>e. sameEdge ab (fst e)) (edges adj)) = 1"
    if "ab \<in> set (faceEdges (faces p ! f))" for ab
    using coh face that unfolding coherent_def by blast
  from e consider "(v, w) \<in> set (faceEdges (faces p ! f))" | "(w, v) \<in> set (faceEdges (faces p ! f))"
    by (auto simp: edgeInFace_def)
  then show ?thesis
  proof cases
    case 1
    then show ?thesis by (rule h)
  next
    case 2
    from h [OF 2] show ?thesis by (simp only: sameEdge_sym [of v w])
  qed
qed

lemma coherent_vertex_edge:
  fixes p :: "('v, 'x) polyhedron_scheme"
  assumes coh: "coherent p adj" and v: "v < length (vertices p)"
    and e: "edgeInFace (g, h) (adjacentFaces adj v)"
  shows "length (filter (\<lambda>e. (fst (fst e) = v \<or> snd (fst e) = v) \<and> sameEdge (g, h) (snd e))
            (edges adj)) = 1"
proof -
  have vs: "v \<in> set [0..<length (vertices p)]" using v by simp
  have k: "length (filter (\<lambda>e. (fst (fst e) = v \<or> snd (fst e) = v) \<and> sameEdge gg (snd e))
            (edges adj)) = 1"
    if "gg \<in> set (faceEdges (adjacentFaces adj v))" for gg
    using coh vs that unfolding coherent_def by blast
  from e consider "(g, h) \<in> set (faceEdges (adjacentFaces adj v))"
    | "(h, g) \<in> set (faceEdges (adjacentFaces adj v))"
    by (auto simp: edgeInFace_def)
  then show ?thesis
  proof cases
    case 1
    then show ?thesis by (rule k)
  next
    case 2
    from k [OF 2] show ?thesis by (simp only: sameEdge_sym [of g h])
  qed
qed

lemma filter_nonempty:
  assumes "length (filter R xs) = 1"
  obtains x where "x \<in> set xs" "R x"
proof -
  obtain y where "filter R xs = [y]" using assms by (cases "filter R xs") auto
  then have "y \<in> set (filter R xs)" by simp
  then have "y \<in> set xs" "R y" by simp_all
  then show ?thesis by (rule that)
qed

lemma facePath_edge:
  fixes p :: "('v, 'x) polyhedron_scheme"
  assumes valid: "validFaces p" and man: "closedManifold p"
    and cons: "consistent p adj" and coh: "coherent p adj"
    and f: "f < length (faces p)" and e: "edgeInFace (v, w) (faces p ! f)"
  shows "facesAtEdge (allPaths p adj twist) ((f, v), (f, w)) = 2"
proof -
  note entry = edge_entry [OF valid cons coh]
  have uniq: "length (filter (\<lambda>e. sameEdge (v, w) (fst e)) (edges adj)) = 1"
    using coh f e by (rule coherent_face_edge)
  have two: "facesAtEdge (faces p) (v, w) = 2"
  proof -
    have face: "faces p ! f \<in> set (faces p)" using f by simp
    have h: "facesAtEdge (faces p) ab = 2" if "ab \<in> set (faceEdges (faces p ! f))" for ab
      using man face that unfolding closedManifold_def by blast
    from e consider "(v, w) \<in> set (faceEdges (faces p ! f))" | "(w, v) \<in> set (faceEdges (faces p ! f))"
      by (auto simp: edgeInFace_def)
    then show ?thesis
    proof cases
      case 1
      then show ?thesis by (rule h)
    next
      case 2
      from h [OF 2] show ?thesis by (simp only: facesAtEdge_sym [of _ v w])
    qed
  qed
  have ne: "v \<noteq> w"
  proof -
    from uniq obtain x where x: "x \<in> set (edges adj)" "sameEdge (v, w) (fst x)"
      by (rule filter_nonempty)
    obtain v1 v2 f1 f2 where xe: "x = ((v1, v2), (f1, f2))" by (metis surj_pair)
    have "v1 \<noteq> v2" using entry(1) x(1) unfolding xe .
    then show ?thesis using x(2) by (auto simp: xe sameEdge_def)
  qed
  have side: "f = fst (snd x) \<or> f = snd (snd x)"
    if x: "x \<in> set (edges adj)" "sameEdge (v, w) (fst x)" for x
  proof -
    obtain v1 v2 f1 f2 where xe: "x = ((v1, v2), (f1, f2))" by (metis surj_pair)
    have s: "sameEdge (v, w) (v1, v2)" using x(2) by (simp add: xe)
    have m: "x \<in> set (edges adj) \<Longrightarrow> x = ((v1, v2), (f1, f2)) \<Longrightarrow> ((v1, v2), (f1, f2)) \<in> set (edges adj)"
      by simp
    note en = entry [OF m [OF x(1) xe]]
    have a: "edgeInFace (v, w) (faces p ! f1)" "edgeInFace (v, w) (faces p ! f2)"
      using en(7,8) edgeInFace_sameEdge [OF s] by simp_all
    have "f = f1 \<or> f = f2"
      using two en(3,4) f en(2) a e by (rule two_faces)
    then show ?thesis by (simp add: xe)
  qed
  have one: "facesAtEdge (getEdgeFacePaths x twist) ((f, v), (f, w))
      = (if sameEdge (v, w) (fst x) then 1 else 0)" if x: "x \<in> set (edges adj)" for x
  proof -
    obtain v1 v2 f1 f2 where xe: "x = ((v1, v2), (f1, f2))" by (metis surj_pair)
    have m: "((v1, v2), (f1, f2)) \<in> set (edges adj)" using x by (simp add: xe)
    note en = entry [OF m]
    have "facesAtEdge (getEdgeFacePaths x twist) ((f, v), (f, w))
        = (if sameEdge (v, w) (v1, v2) \<and> (f = f1 \<or> f = f2) then 1 else 0)"
      unfolding xe using ne en(1,2) by (rule bridge_count_face_edge)
    moreover have "f = f1 \<or> f = f2" if "sameEdge (v, w) (v1, v2)"
      using side [OF x] that by (simp add: xe)
    ultimately show ?thesis by (auto simp: xe)
  qed
  have "facesAtEdge (bridgePaths adj twist) ((f, v), (f, w))
      = sum_list (map (\<lambda>x. facesAtEdge (getEdgeFacePaths x twist) ((f, v), (f, w))) (edges adj))"
    unfolding bridgePaths_def by (rule facesAtEdge_concat)
  also have "\<dots> = sum_list (map (\<lambda>x. if sameEdge (v, w) (fst x) then 1 else 0) (edges adj))"
    using one by (simp cong: map_cong)
  also have "\<dots> = 1 * length (filter (\<lambda>e. sameEdge (v, w) (fst e)) (edges adj))"
    by (rule sum_list_indicator)
  finally have bridge: "facesAtEdge (bridgePaths adj twist) ((f, v), (f, w)) = 1"
    using uniq by simp
  have face: "facesAtEdge (facePaths p) ((f, v), (f, w)) = 1"
    using f e by (simp add: facesAtEdge_facePaths)
  have vertex: "facesAtEdge (vertexPaths adj (length (vertices p))) ((f, v), (f, w)) = 0"
    using ne by (simp add: facesAtEdge_vertexPaths)
  show ?thesis
    unfolding allPaths_def facesAtEdge_append by (simp only: face vertex bridge)
qed

lemma vertexPath_edge:
  fixes p :: "('v, 'x) polyhedron_scheme"
  assumes valid: "validFaces p" and cons: "consistent p adj" and coh: "coherent p adj"
    and v: "v < length (vertices p)" and e: "edgeInFace (g, h) (adjacentFaces adj v)"
  shows "facesAtEdge (allPaths p adj twist) ((g, v), (h, v)) = 2"
proof -
  note entry = edge_entry [OF valid cons coh]
  let ?R = "\<lambda>e. (fst (fst e) = v \<or> snd (fst e) = v) \<and> sameEdge (g, h) (snd e)"
  have uniq: "length (filter ?R (edges adj)) = 1"
    using coh v e by (rule coherent_vertex_edge)
  have ne: "g \<noteq> h"
  proof -
    from uniq obtain x where x: "x \<in> set (edges adj)" "?R x"
      by (rule filter_nonempty)
    obtain v1 v2 f1 f2 where xe: "x = ((v1, v2), (f1, f2))" by (metis surj_pair)
    have "f1 \<noteq> f2" using entry(2) x(1) unfolding xe .
    then show ?thesis using x(2) by (auto simp: xe sameEdge_def)
  qed
  have one: "facesAtEdge (getEdgeFacePaths x twist) ((g, v), (h, v))
      = (if ?R x then 1 else 0)" if x: "x \<in> set (edges adj)" for x
  proof -
    obtain v1 v2 f1 f2 where xe: "x = ((v1, v2), (f1, f2))" by (metis surj_pair)
    have m: "((v1, v2), (f1, f2)) \<in> set (edges adj)" using x by (simp add: xe)
    note en = entry [OF m]
    have "facesAtEdge (getEdgeFacePaths x twist) ((g, v), (h, v))
        = (if (v1 = v \<or> v2 = v) \<and> sameEdge (g, h) (f1, f2) then 1 else 0)"
      unfolding xe using ne en(1,2) by (rule bridge_count_vertex_edge)
    then show ?thesis by (simp add: xe)
  qed
  have "facesAtEdge (bridgePaths adj twist) ((g, v), (h, v))
      = sum_list (map (\<lambda>x. facesAtEdge (getEdgeFacePaths x twist) ((g, v), (h, v))) (edges adj))"
    unfolding bridgePaths_def by (rule facesAtEdge_concat)
  also have "\<dots> = sum_list (map (\<lambda>x. if ?R x then 1 else 0) (edges adj))"
    using one by (simp cong: map_cong)
  also have "\<dots> = 1 * length (filter ?R (edges adj))"
    by (rule sum_list_indicator)
  finally have bridge: "facesAtEdge (bridgePaths adj twist) ((g, v), (h, v)) = 1"
    using uniq by simp
  have face: "facesAtEdge (facePaths p) ((g, v), (h, v)) = 0"
    using ne by (simp add: facesAtEdge_facePaths)
  have vertex: "facesAtEdge (vertexPaths adj (length (vertices p))) ((g, v), (h, v)) = 1"
    using v e by (simp add: facesAtEdge_vertexPaths)
  show ?thesis
    unfolding allPaths_def facesAtEdge_append by (simp only: face vertex bridge)
qed

lemma diagonal_edge:
  fixes p :: "('v, 'x) polyhedron_scheme"
  assumes valid: "validFaces p" and cons: "consistent p adj" and coh: "coherent p adj"
    and e: "((v1, v2), (f1, f2)) \<in> set (edges adj)"
  shows "facesAtEdge (allPaths p adj (Some ''right'')) ((f1, v1), (f2, v2)) = 2"
    and "facesAtEdge (allPaths p adj (Some ''left'')) ((f1, v2), (f2, v1)) = 2"
proof -
  note entry = edge_entry [OF valid cons coh]
  note en = entry [OF e]
  have uniq: "length (filter (\<lambda>e. sameEdge (v1, v2) (fst e)) (edges adj)) = 1"
    using coh en(3,7) by (rule coherent_face_edge)
  let ?R = "\<lambda>x. sameEdge ((f1, v1), (f2, v2)) ((fst (snd x), fst (fst x)), (snd (snd x), snd (fst x)))"
  let ?L = "\<lambda>x. sameEdge ((f1, v2), (f2, v1)) ((fst (snd x), snd (fst x)), (snd (snd x), fst (fst x)))"
  have r1: "length (filter ?R (edges adj)) = 1"
  proof (rule filter_unique [OF uniq e])
    show "?R ((v1, v2), (f1, f2))" by (simp add: sameEdge_def)
  next
    fix x assume "?R x"
    then show "sameEdge (v1, v2) (fst x)" by (cases x) (auto simp: sameEdge_def)
  qed
  have l1: "length (filter ?L (edges adj)) = 1"
  proof (rule filter_unique [OF uniq e])
    show "?L ((v1, v2), (f1, f2))" by (simp add: sameEdge_def)
  next
    fix x assume "?L x"
    then show "sameEdge (v1, v2) (fst x)" by (cases x) (auto simp: sameEdge_def)
  qed
  have right: "facesAtEdge (getEdgeFacePaths x (Some ''right'')) ((f1, v1), (f2, v2))
      = (if ?R x then 2 else 0)" if x: "x \<in> set (edges adj)" for x
  proof -
    obtain a1 a2 b1 b2 where xe: "x = ((a1, a2), (b1, b2))" by (metis surj_pair)
    have m: "((a1, a2), (b1, b2)) \<in> set (edges adj)" using x by (simp add: xe)
    note ex = entry [OF m]
    have "facesAtEdge (getEdgeFacePaths x (Some ''right'')) ((f1, v1), (f2, v2))
        = (if sameEdge ((f1, v1), (f2, v2)) ((b1, a1), (b2, a2)) then 2 else 0)"
      unfolding xe using en(2,1) ex(1,2) by (rule bridge_count_diagonal_right)
    then show ?thesis by (simp add: xe)
  qed
  have left: "facesAtEdge (getEdgeFacePaths x (Some ''left'')) ((f1, v2), (f2, v1))
      = (if ?L x then 2 else 0)" if x: "x \<in> set (edges adj)" for x
  proof -
    obtain a1 a2 b1 b2 where xe: "x = ((a1, a2), (b1, b2))" by (metis surj_pair)
    have m: "((a1, a2), (b1, b2)) \<in> set (edges adj)" using x by (simp add: xe)
    note ex = entry [OF m]
    have "facesAtEdge (getEdgeFacePaths x (Some ''left'')) ((f1, v2), (f2, v1))
        = (if sameEdge ((f1, v2), (f2, v1)) ((b1, a2), (b2, a1)) then 2 else 0)"
      unfolding xe using en(2) en(1) [symmetric] ex(1,2) by (rule bridge_count_diagonal_left)
    then show ?thesis by (simp add: xe)
  qed
  have "facesAtEdge (bridgePaths adj (Some ''right'')) ((f1, v1), (f2, v2))
      = sum_list (map (\<lambda>x. facesAtEdge (getEdgeFacePaths x (Some ''right'')) ((f1, v1), (f2, v2)))
          (edges adj))"
    unfolding bridgePaths_def by (rule facesAtEdge_concat)
  also have "\<dots> = sum_list (map (\<lambda>x. if ?R x then 2 else 0) (edges adj))"
    using right by (simp cong: map_cong)
  also have "\<dots> = 2 * length (filter ?R (edges adj))"
    by (rule sum_list_indicator)
  finally have br: "facesAtEdge (bridgePaths adj (Some ''right'')) ((f1, v1), (f2, v2)) = 2"
    using r1 by simp
  have "facesAtEdge (bridgePaths adj (Some ''left'')) ((f1, v2), (f2, v1))
      = sum_list (map (\<lambda>x. facesAtEdge (getEdgeFacePaths x (Some ''left'')) ((f1, v2), (f2, v1)))
          (edges adj))"
    unfolding bridgePaths_def by (rule facesAtEdge_concat)
  also have "\<dots> = sum_list (map (\<lambda>x. if ?L x then 2 else 0) (edges adj))"
    using left by (simp cong: map_cong)
  also have "\<dots> = 2 * length (filter ?L (edges adj))"
    by (rule sum_list_indicator)
  finally have bl: "facesAtEdge (bridgePaths adj (Some ''left'')) ((f1, v2), (f2, v1)) = 2"
    using l1 by simp
  have face: "facesAtEdge (facePaths p) ((f1, a), (f2, b)) = 0" for a b
    using en(2) by (simp add: facesAtEdge_facePaths)
  have vertex: "facesAtEdge (vertexPaths adj (length (vertices p))) ((a, v1), (b, v2)) = 0"
    "facesAtEdge (vertexPaths adj (length (vertices p))) ((a, v2), (b, v1)) = 0" for a b
    using en(1) by (simp_all add: facesAtEdge_vertexPaths)
  show "facesAtEdge (allPaths p adj (Some ''right'')) ((f1, v1), (f2, v2)) = 2"
    unfolding allPaths_def facesAtEdge_append by (simp only: face vertex br)
  show "facesAtEdge (allPaths p adj (Some ''left'')) ((f1, v2), (f2, v1)) = 2"
    unfolding allPaths_def facesAtEdge_append by (simp only: face vertex bl)
qed

lemma bridgePath_edges:
  assumes "path \<in> set (getEdgeFacePaths ((v1, v2), (f1, f2)) twist)" and "e \<in> set (faceEdges path)"
  shows "e \<in> {((f1, v2), (f1, v1)), ((f2, v1), (f2, v2)), ((f1, v1), (f2, v1)), ((f2, v2), (f1, v2))}
       \<or> twist = Some ''right'' \<and> (e = ((f1, v1), (f2, v2)) \<or> e = ((f2, v2), (f1, v1)))
       \<or> twist = Some ''left'' \<and> (e = ((f1, v2), (f2, v1)) \<or> e = ((f2, v1), (f1, v2)))"
  using assms by (auto simp: getEdgeFacePaths_def faceEdges_def split: if_splits)

lemma allPaths_manifold:
  fixes p :: "('v, 'x) polyhedron_scheme"
  assumes valid: "validFaces p" and man: "closedManifold p"
    and cons: "consistent p adj" and coh: "coherent p adj"
    and path: "path \<in> set (allPaths p adj twist)" and e: "e \<in> set (faceEdges path)"
  shows "facesAtEdge (allPaths p adj twist) e = 2"
proof -
  note fe = facePath_edge [OF valid man cons coh]
  note ve = vertexPath_edge [OF valid cons coh]
  note de = diagonal_edge [OF valid cons coh]
  from path consider "path \<in> set (facePaths p)"
    | "path \<in> set (vertexPaths adj (length (vertices p)))"
    | "path \<in> set (bridgePaths adj twist)"
    by (auto simp: allPaths_def)
  then show ?thesis
  proof cases
    case 1
    then obtain f where f: "f < length (faces p)" "path = map (\<lambda>v. (f, v)) (faces p ! f)"
      by (auto simp: facePaths_def)
    from e obtain a b where ab: "(a, b) \<in> set (faceEdges (faces p ! f))" "e = ((f, a), (f, b))"
      unfolding f(2) faceEdges_map by auto
    have "edgeInFace (a, b) (faces p ! f)" using ab(1) by (simp add: edgeInFace_def)
    from fe [OF f(1) this] show ?thesis by (simp only: ab(2))
  next
    case 2
    then obtain v where v: "v < length (vertices p)" "path = map (\<lambda>f. (f, v)) (adjacentFaces adj v)"
      by (auto simp: vertexPaths_def)
    from e obtain a b where ab: "(a, b) \<in> set (faceEdges (adjacentFaces adj v))" "e = ((a, v), (b, v))"
      unfolding v(2) faceEdges_map by auto
    have "edgeInFace (a, b) (adjacentFaces adj v)" using ab(1) by (simp add: edgeInFace_def)
    from ve [OF v(1) this] show ?thesis by (simp only: ab(2))
  next
    case 3
    then obtain x where x: "x \<in> set (edges adj)" "path \<in> set (getEdgeFacePaths x twist)"
      by (auto simp: bridgePaths_def)
    obtain v1 v2 f1 f2 where xe: "x = ((v1, v2), (f1, f2))" by (metis surj_pair)
    have m: "((v1, v2), (f1, f2)) \<in> set (edges adj)" using x(1) by (simp add: xe)
    note en = edge_entry [OF valid cons coh m]
    have a1: "facesAtEdge (allPaths p adj twist) ((f1, v2), (f1, v1)) = 2"
      using en(3) en(7) [unfolded edgeInFace_sym [of v1 v2]] by (rule fe)
    have a2: "facesAtEdge (allPaths p adj twist) ((f2, v1), (f2, v2)) = 2"
      using en(4) en(8) by (rule fe)
    have b1: "facesAtEdge (allPaths p adj twist) ((f1, v1), (f2, v1)) = 2"
      using en(5) en(9) by (rule ve)
    have b2: "facesAtEdge (allPaths p adj twist) ((f2, v2), (f1, v2)) = 2"
      using en(6) en(10) [unfolded edgeInFace_sym [of f1 f2]] by (rule ve)
    have c1: "facesAtEdge (allPaths p adj twist) ((f1, v1), (f2, v2)) = 2
        \<and> facesAtEdge (allPaths p adj twist) ((f2, v2), (f1, v1)) = 2" if "twist = Some ''right''"
      using de(1) [OF m] facesAtEdge_sym [of _ "(f2, v2)" "(f1, v1)"] by (simp only: that)
    have c2: "facesAtEdge (allPaths p adj twist) ((f1, v2), (f2, v1)) = 2
        \<and> facesAtEdge (allPaths p adj twist) ((f2, v1), (f1, v2)) = 2" if "twist = Some ''left''"
      using de(2) [OF m] facesAtEdge_sym [of _ "(f2, v1)" "(f1, v2)"] by (simp only: that)
    from bridgePath_edges [OF x(2) [unfolded xe] e]
    show ?thesis using a1 a2 b1 b2 c1 c2 by auto
  qed
qed

lemma map_position: "distinct xs \<Longrightarrow> map (\<lambda>x. position x xs) xs = [0..<length xs]"
  by (rule nth_equalityI) (simp_all add: position_nth)

lemma figure_path:
  assumes "distinct (adjacentFaces adj v)" and "length (adjacentFaces adj v) = count"
  shows "[v * count..<(v + 1) * count]
     = map (\<lambda>(f, v). duplicateOf adj count f v) (map (\<lambda>f. (f, v)) (adjacentFaces adj v))"
proof -
  have "map (\<lambda>(f, v). duplicateOf adj count f v) (map (\<lambda>f. (f, v)) (adjacentFaces adj v))
      = map (\<lambda>i. i + v * count) (map (\<lambda>f. position f (adjacentFaces adj v)) (adjacentFaces adj v))"
    by (simp add: duplicateOf_def comp_def add.commute)
  also have "\<dots> = map (\<lambda>i. i + v * count) [0..<count]"
    using map_position [OF assms(1)] assms(2) by simp
  also have "\<dots> = [v * count..<count + v * count]" by (rule map_add_upt)
  finally show ?thesis by (simp add: add.commute)
qed

lemma manifold_map:
  assumes inj: "inj_on g U" and sub: "\<forall>face \<in> set fs. set face \<subseteq> U"
    and two: "\<And>face e. face \<in> set fs \<Longrightarrow> e \<in> set (faceEdges face) \<Longrightarrow> facesAtEdge fs e = 2"
    and face: "face \<in> set (map (map g) fs)" and e: "e \<in> set (faceEdges face)"
  shows "facesAtEdge (map (map g) fs) e = 2"
proof -
  from face obtain f0 where f0: "f0 \<in> set fs" "face = map g f0" by auto
  from e obtain a b where ab: "(a, b) \<in> set (faceEdges f0)" "e = (g a, g b)"
    unfolding f0(2) faceEdges_map by auto
  have "a \<in> U" "b \<in> U" using faceEdges_subset [OF ab(1)] sub f0(1) by auto
  then have "facesAtEdge (map (map g) fs) (g a, g b) = facesAtEdge fs (a, b)"
    using facesAtEdge_map [OF inj _ _ sub] by blast
  also have "\<dots> = 2" using f0(1) ab(1) by (rule two)
  finally show ?thesis by (simp add: ab(2))
qed

lemma duplicateVertices_paths:
  fixes p :: "('v, 'x) polyhedron_scheme"
  assumes valid: "validFaces p" and cons: "consistent p adj"
    and start: "getVertex adj < length (vertices p)"
    and uniform: "\<forall>v<length (vertices p).
        length (adjacentFaces adj v) = length (adjacentFaces adj (getVertex adj))"
  defines "count \<equiv> length (adjacentFaces adj (getVertex adj))"
  shows "duplicateVertices adj p twist
     = Inr (p\<lparr>vertices := concat (map (replicate count) (vertices p)),
              faces := map (map (\<lambda>(f, v). duplicateOf adj count f v)) (allPaths p adj twist)\<rparr>)"
proof -
  let ?dup = "\<lambda>(f, v). duplicateOf adj count f v"
  let ?n = "length (vertices p)"
  have m: "map (\<lambda>(f, face). map (duplicateOf adj count f) face) (indexed (faces p))
      = map (map ?dup) (facePaths p)"
    by (rule nth_equalityI) (simp_all add: indexed_def facePaths_def comp_def)
  have v: "map (\<lambda>v. [v * count..<(v + 1) * count]) [0..<?n] = map (map ?dup) (vertexPaths adj ?n)"
  proof -
    have "[v * count..<(v + 1) * count] = map ?dup (map (\<lambda>f. (f, v)) (adjacentFaces adj v))"
      if "v \<in> set [0..<?n]" for v
    proof (rule figure_path)
      show "distinct (adjacentFaces adj v)" using consistent_distinct [OF cons] that by simp
      show "length (adjacentFaces adj v) = count" using uniform that by (simp add: count_def)
    qed
    then have "map (\<lambda>v. [v * count..<(v + 1) * count]) [0..<?n]
        = map (\<lambda>v. map ?dup (map (\<lambda>f. (f, v)) (adjacentFaces adj v))) [0..<?n]"
      by (rule map_cong [OF refl])
    then show ?thesis by (simp only: vertexPaths_def map_map comp_def)
  qed
  have b: "concat (map (\<lambda>edge. map (map ?dup) (getEdgeFacePaths edge twist)) (edges adj))
      = map (map ?dup) (bridgePaths adj twist)"
    by (simp add: bridgePaths_def map_concat comp_def)
  have "duplicateVertices adj p twist
     = Inr (p\<lparr>vertices := concat (map (replicate count) (vertices p)),
              faces := map (\<lambda>(f, face). map (duplicateOf adj count f) face) (indexed (faces p))
                 @ map (\<lambda>v. [v * count..<(v + 1) * count]) [0..<?n]
                 @ concat (map (\<lambda>edge. map (map ?dup) (getEdgeFacePaths edge twist)) (edges adj))\<rparr>)"
    unfolding count_def by (rule duplicateVertices_closed_form [OF valid cons start])
  then show ?thesis by (simp only: m v b allPaths_def map_append)
qed

lemma allPaths_admissible:
  fixes p :: "('v, 'x) polyhedron_scheme"
  assumes valid: "validFaces p" and cons: "consistent p adj"
    and path: "path \<in> set (allPaths p adj twist)" and x: "(f, v) \<in> set path"
  shows "v < length (vertices p) \<and> f \<in> set (adjacentFaces adj v)"
proof -
  from path consider "path \<in> set (facePaths p)"
    | "path \<in> set (vertexPaths adj (length (vertices p)))"
    | "path \<in> set (bridgePaths adj twist)"
    by (auto simp: allPaths_def)
  then show ?thesis
  proof cases
    case 1
    then obtain h where h: "h < length (faces p)" "path = map (\<lambda>v. (h, v)) (faces p ! h)"
      by (auto simp: facePaths_def)
    then have "f = h" "v \<in> set (faces p ! h)" using x by auto
    then show ?thesis using consistent_adjacent [OF cons valid h(1)] by simp
  next
    case 2
    then show ?thesis using x by (auto simp: vertexPaths_def)
  next
    case 3
    then obtain e where "e \<in> set (edges adj)" "path \<in> set (getEdgeFacePaths e twist)"
      by (auto simp: bridgePaths_def)
    then show ?thesis using consistent_path [OF cons valid _ _ x] by blast
  qed
qed

lemma duplicateVertices_manifold:
  fixes p :: "('v, 'x) polyhedron_scheme"
  assumes valid: "validFaces p" and man: "closedManifold p"
    and cons: "consistent p adj" and coh: "coherent p adj"
    and start: "getVertex adj < length (vertices p)"
    and uniform: "\<forall>v<length (vertices p).
        length (adjacentFaces adj v) = length (adjacentFaces adj (getVertex adj))"
    and res: "duplicateVertices adj p twist = Inr q"
  shows "closedManifold q"
proof -
  define count where "count = length (adjacentFaces adj (getVertex adj))"
  define dup where "dup = (\<lambda>(f, v). duplicateOf adj count f v)"
  define U where "U = {(f, v). v < length (vertices p) \<and> f \<in> set (adjacentFaces adj v)}"
  define P where "P = allPaths p adj twist"
  have fq: "faces q = map (map dup) P"
    using duplicateVertices_paths [OF valid cons start uniform, of twist] res
    by (simp add: count_def dup_def P_def)
  have sub: "\<forall>path \<in> set P. set path \<subseteq> U"
    unfolding P_def U_def using allPaths_admissible [OF valid cons] by auto
  have inj: "inj_on dup U"
  proof (rule inj_onI)
    fix x y assume xy: "x \<in> U" "y \<in> U" "dup x = dup y"
    obtain f v where x: "x = (f, v)" by (cases x)
    obtain h w where y: "y = (h, w)" by (cases y)
    have "f \<in> set (adjacentFaces adj v)" "length (adjacentFaces adj v) = count"
      "h \<in> set (adjacentFaces adj w)" "length (adjacentFaces adj w) = count"
      using xy(1,2) uniform by (simp_all add: U_def x y count_def)
    moreover have "duplicateOf adj count f v = duplicateOf adj count h w"
      using xy(3) by (simp add: dup_def x y)
    ultimately have "v = w \<and> f = h" by (rule duplicateOf_inj)
    then show "x = y" by (simp add: x y)
  qed
  have two: "facesAtEdge P e = 2" if "path \<in> set P" "e \<in> set (faceEdges path)" for path e
    using that unfolding P_def by (rule allPaths_manifold [OF valid man cons coh])
  show ?thesis
    unfolding closedManifold_def fq
  proof (intro ballI)
    fix face e assume "face \<in> set (map (map dup) P)" "e \<in> set (faceEdges face)"
    with inj sub two show "facesAtEdge (map (map dup) P) e = 2" by (rule manifold_map)
  qed
qed

text \<open>
  Claim C4, as the code has it. \<open>removeExtraneousVertices\<close> returns a well-formed polyhedron
  on a well-formed one: valid vertex indices, at least three distinct vertices per face,
  every edge on exactly two faces (the indices of a vertex list are contiguous from 0 by
  themselves). \<open>deduplicateVertices\<close> returns a polyhedron with valid indices, at least
  three distinct vertices per face and every vertex named by a face. \<open>duplicateVertices\<close>
  returns a polyhedron with valid indices and at least three distinct vertices per face
  when the input is well-formed and every vertex has the same number of adjacent faces, at
  least three, as the vertex \<open>getVertex\<close> returns; when moreover the adjacency lists the
  faces around every vertex in cyclic order and every edge of the faces once, every edge of
  the result lies on exactly two faces, and the result is well-formed.
\<close>

theorem utilities_invariants:
  fixes p :: "('v, 'x) polyhedron_scheme"
  shows "(wellFormed p \<longrightarrow> (\<exists>q. removeExtraneousVertices p = Inr q \<and> wellFormed q))
    \<and> (validFaces p \<longrightarrow>
         (\<exists>q. deduplicateVertices eq p = Inr q \<and> validFaces q \<and> threeDistinct q
              \<and> set (vertsInFaces q) = {..<length (vertices q)}))
    \<and> (wellFormed p \<and> consistent p adj \<and> getVertex adj < length (vertices p)
         \<and> (\<forall>v<length (vertices p).
               length (adjacentFaces adj v) = length (adjacentFaces adj (getVertex adj)))
         \<and> 3 \<le> length (adjacentFaces adj (getVertex adj)) \<longrightarrow>
         (\<exists>q. duplicateVertices adj p twist = Inr q \<and> validFaces q \<and> threeDistinct q
              \<and> (coherent p adj \<longrightarrow> closedManifold q \<and> wellFormed q)))"
proof -
  have remove: "\<exists>q. removeExtraneousVertices p = Inr q \<and> wellFormed q" if "wellFormed p"
    using that by (rule removeExtraneousVertices_wellFormed)
  have dedup: "\<exists>q. deduplicateVertices eq p = Inr q \<and> validFaces q \<and> threeDistinct q
              \<and> set (vertsInFaces q) = {..<length (vertices q)}" if "validFaces p"
  proof -
    from deduplicateVertices_result [OF that, of eq] obtain q where
      q: "deduplicateVertices eq p = Inr q" "validFaces q"
         "set (vertsInFaces q) = {..<length (vertices q)}"
         "\<forall>face \<in> set (faces q). distinct face \<and> 3 \<le> length face"
      by blast
    have "threeDistinct q"
      using q(4) by (simp add: threeDistinct_def distinct_remdups_id)
    with q(1,2,3) show ?thesis by (intro exI [of _ q] conjI)
  qed
  have duplicate: "\<exists>q. duplicateVertices adj p twist = Inr q \<and> validFaces q \<and> threeDistinct q
              \<and> (coherent p adj \<longrightarrow> closedManifold q \<and> wellFormed q)"
    if "wellFormed p \<and> consistent p adj \<and> getVertex adj < length (vertices p)
         \<and> (\<forall>v<length (vertices p).
               length (adjacentFaces adj v) = length (adjacentFaces adj (getVertex adj)))
         \<and> 3 \<le> length (adjacentFaces adj (getVertex adj))"
  proof -
    have v: "validFaces p" and t: "threeDistinct p" and m: "closedManifold p"
      using that by (simp_all add: wellFormed_def)
    have c: "consistent p adj" and s: "getVertex adj < length (vertices p)"
      and u: "\<forall>v<length (vertices p).
               length (adjacentFaces adj v) = length (adjacentFaces adj (getVertex adj))"
      and k: "3 \<le> length (adjacentFaces adj (getVertex adj))"
      using that by blast+
    from duplicateVertices_valid_three [OF v t c s u k, of twist] obtain q where
      q: "duplicateVertices adj p twist = Inr q" "validFaces q" "threeDistinct q"
      by blast
    have "closedManifold q \<and> wellFormed q" if coh: "coherent p adj"
    proof -
      have "closedManifold q" by (rule duplicateVertices_manifold [OF v m c coh s u q(1)])
      then show ?thesis using q(2,3) by (simp add: wellFormed_def)
    qed
    then have "coherent p adj \<longrightarrow> closedManifold q \<and> wellFormed q" by (rule impI)
    with q show ?thesis by (intro exI [of _ q] conjI)
  qed
  show ?thesis using remove dedup duplicate by (intro conjI impI)
qed

text \<open>
  The witness: a tetrahedron with a stray vertex, cleaned; the flat octahedron,
  deduplicated; the tetrahedron, its vertices duplicated with the twist to the right.
\<close>

theorem utilities_invariants_witness:
  "wellFormed \<lparr>vertices = [''a'', ''x'', ''b'', ''c'', ''d''],
               faces = [[0, 2, 3], [0, 3, 4], [0, 4, 2], [2, 4, 3]]\<rparr>
   \<and> removeExtraneousVertices \<lparr>vertices = [''a'', ''x'', ''b'', ''c'', ''d''],
               faces = [[0, 2, 3], [0, 3, 4], [0, 4, 2], [2, 4, 3]]\<rparr>
       = Inr \<lparr>vertices = [''a'', ''d'', ''b'', ''c''],
              faces = [[0, 2, 3], [0, 3, 1], [0, 1, 2], [2, 1, 3]]\<rparr>
   \<and> wellFormed \<lparr>vertices = [''a'', ''d'', ''b'', ''c''],
              faces = [[0, 2, 3], [0, 3, 1], [0, 1, 2], [2, 1, 3]]\<rparr>
   \<and> validFaces flatOctahedron
   \<and> deduplicateVertices (=) flatOctahedron
       = Inr \<lparr>vertices = [0, 1, 2, 3, 7],
              faces = [[0, 1, 4], [1, 2, 4], [2, 3, 4], [3, 0, 4],
                       [1, 0, 4], [2, 1, 4], [3, 2, 4], [0, 3, 4]]\<rparr>
   \<and> validFaces \<lparr>vertices = [0, 1, 2, 3, 7 :: nat],
              faces = [[0, 1, 4], [1, 2, 4], [2, 3, 4], [3, 0, 4],
                       [1, 0, 4], [2, 1, 4], [3, 2, 4], [0, 3, 4]]\<rparr>
   \<and> threeDistinct \<lparr>vertices = [0, 1, 2, 3, 7 :: nat],
              faces = [[0, 1, 4], [1, 2, 4], [2, 3, 4], [3, 0, 4],
                       [1, 0, 4], [2, 1, 4], [3, 2, 4], [0, 3, 4]]\<rparr>
   \<and> wellFormed tetrahedron \<and> consistent tetrahedron tetrahedronAdjacency
   \<and> coherent tetrahedron tetrahedronAdjacency
   \<and> duplicateVertices tetrahedronAdjacency tetrahedron (Some ''right'')
       = Inr \<lparr>vertices = [''a'', ''a'', ''a'', ''b'', ''b'', ''b'', ''c'', ''c'', ''c'',
                          ''d'', ''d'', ''d''],
              faces = [[0, 3, 6], [1, 9, 5], [2, 7, 11], [4, 10, 8],
                       [0, 1, 2], [3, 4, 5], [6, 7, 8], [9, 10, 11],
                       [0, 5, 3], [0, 1, 5], [0, 7, 6], [0, 2, 7], [1, 11, 9], [1, 2, 11],
                       [3, 8, 6], [3, 4, 8], [5, 10, 9], [5, 4, 10], [7, 10, 11], [7, 8, 10]]\<rparr>
   \<and> validFaces \<lparr>vertices = [''a'', ''a'', ''a'', ''b'', ''b'', ''b'', ''c'', ''c'', ''c'',
                          ''d'', ''d'', ''d''],
              faces = [[0, 3, 6], [1, 9, 5], [2, 7, 11], [4, 10, 8],
                       [0, 1, 2], [3, 4, 5], [6, 7, 8], [9, 10, 11],
                       [0, 5, 3], [0, 1, 5], [0, 7, 6], [0, 2, 7], [1, 11, 9], [1, 2, 11],
                       [3, 8, 6], [3, 4, 8], [5, 10, 9], [5, 4, 10], [7, 10, 11], [7, 8, 10]]\<rparr>
   \<and> threeDistinct \<lparr>vertices = [''a'', ''a'', ''a'', ''b'', ''b'', ''b'', ''c'', ''c'', ''c'',
                          ''d'', ''d'', ''d''],
              faces = [[0, 3, 6], [1, 9, 5], [2, 7, 11], [4, 10, 8],
                       [0, 1, 2], [3, 4, 5], [6, 7, 8], [9, 10, 11],
                       [0, 5, 3], [0, 1, 5], [0, 7, 6], [0, 2, 7], [1, 11, 9], [1, 2, 11],
                       [3, 8, 6], [3, 4, 8], [5, 10, 9], [5, 4, 10], [7, 10, 11], [7, 8, 10]]\<rparr>
   \<and> closedManifold \<lparr>vertices = [''a'', ''a'', ''a'', ''b'', ''b'', ''b'', ''c'', ''c'', ''c'',
                          ''d'', ''d'', ''d''],
              faces = [[0, 3, 6], [1, 9, 5], [2, 7, 11], [4, 10, 8],
                       [0, 1, 2], [3, 4, 5], [6, 7, 8], [9, 10, 11],
                       [0, 5, 3], [0, 1, 5], [0, 7, 6], [0, 2, 7], [1, 11, 9], [1, 2, 11],
                       [3, 8, 6], [3, 4, 8], [5, 10, 9], [5, 4, 10], [7, 10, 11], [7, 8, 10]]\<rparr>"
proof -
  let ?p0 = "\<lparr>vertices = [''a'', ''x'', ''b'', ''c'', ''d''],
               faces = [[0, 2, 3], [0, 3, 4], [0, 4, 2], [2, 4, 3 :: nat]]\<rparr>"
  let ?q0 = "\<lparr>vertices = [''a'', ''d'', ''b'', ''c''],
              faces = [[0, 2, 3], [0, 3, 1], [0, 1, 2], [2, 1, 3 :: nat]]\<rparr>"
  let ?q1 = "\<lparr>vertices = [0, 1, 2, 3, 7 :: nat],
              faces = [[0, 1, 4], [1, 2, 4], [2, 3, 4], [3, 0, 4],
                       [1, 0, 4], [2, 1, 4], [3, 2, 4], [0, 3, 4 :: nat]]\<rparr>"
  let ?q2 = "\<lparr>vertices = [''a'', ''a'', ''a'', ''b'', ''b'', ''b'', ''c'', ''c'', ''c'',
                          ''d'', ''d'', ''d''],
              faces = [[0, 3, 6], [1, 9, 5], [2, 7, 11], [4, 10, 8],
                       [0, 1, 2], [3, 4, 5], [6, 7, 8], [9, 10, 11],
                       [0, 5, 3], [0, 1, 5], [0, 7, 6], [0, 2, 7], [1, 11, 9], [1, 2, 11],
                       [3, 8, 6], [3, 4, 8], [5, 10, 9], [5, 4, 10], [7, 10, 11],
                       [7, 8, 10 :: nat]]\<rparr>"
  have wf0: "wellFormed ?p0" by code_simp
  have run0: "removeExtraneousVertices ?p0 = Inr ?q0" by code_simp
  have v1: "validFaces flatOctahedron" by code_simp
  have run1: "deduplicateVertices (=) flatOctahedron = Inr ?q1" by code_simp
  have wf2: "wellFormed tetrahedron" by code_simp
  have cons: "consistent tetrahedron tetrahedronAdjacency" by code_simp
  have coh: "coherent tetrahedron tetrahedronAdjacency" by code_simp
  have start: "getVertex tetrahedronAdjacency < length (vertices tetrahedron)" by code_simp
  have uniform: "\<forall>v<length (vertices tetrahedron).
      length (adjacentFaces tetrahedronAdjacency v)
        = length (adjacentFaces tetrahedronAdjacency (getVertex tetrahedronAdjacency))"
    by (simp add: tetrahedronAdjacency_def)
  have count: "3 \<le> length (adjacentFaces tetrahedronAdjacency (getVertex tetrahedronAdjacency))"
    by (simp add: tetrahedronAdjacency_def)
  have run2: "duplicateVertices tetrahedronAdjacency tetrahedron (Some ''right'') = Inr ?q2"
    by code_simp
  have a: "wellFormed ?q0"
  proof -
    from utilities_invariants [of ?p0] wf0
    obtain q where "removeExtraneousVertices ?p0 = Inr q" "wellFormed q" by blast
    then show ?thesis using run0 by simp
  qed
  have b: "validFaces ?q1 \<and> threeDistinct ?q1"
  proof -
    from utilities_invariants [of flatOctahedron "(=)"] v1
    obtain q where "deduplicateVertices (=) flatOctahedron = Inr q" "validFaces q" "threeDistinct q"
      by blast
    then show ?thesis using run1 by simp
  qed
  have c: "validFaces ?q2 \<and> threeDistinct ?q2 \<and> closedManifold ?q2"
  proof -
    have "wellFormed tetrahedron \<and> consistent tetrahedron tetrahedronAdjacency
        \<and> getVertex tetrahedronAdjacency < length (vertices tetrahedron)
        \<and> (\<forall>v<length (vertices tetrahedron).
              length (adjacentFaces tetrahedronAdjacency v)
                = length (adjacentFaces tetrahedronAdjacency (getVertex tetrahedronAdjacency)))
        \<and> 3 \<le> length (adjacentFaces tetrahedronAdjacency (getVertex tetrahedronAdjacency))"
      using wf2 cons start uniform count by (intro conjI)
    with utilities_invariants [of tetrahedron _ tetrahedronAdjacency "Some ''right''"]
    obtain q where q: "duplicateVertices tetrahedronAdjacency tetrahedron (Some ''right'') = Inr q"
      "validFaces q" "threeDistinct q"
      "coherent tetrahedron tetrahedronAdjacency \<longrightarrow> closedManifold q \<and> wellFormed q"
      by blast
    have "q = ?q2" using q(1) run2 by simp
    then show ?thesis using q(2,3,4) coh by simp
  qed
  show ?thesis
    using wf0 run0 a v1 run1 b wf2 cons coh run2 c by (intro conjI) (simp_all only: simp_thms)
qed

text \<open>
  Claim C4 as stated fails for two of the three functions. \<open>deduplicateVertices\<close> on the
  flat octahedron, which is well-formed, merges the two apexes, and the edge from vertex 1
  to the merged apex then lies on four faces. For \<open>duplicateVertices\<close> each of the three
  conditions is needed. On the square pyramid, which is well-formed but has four faces at
  the apex and three elsewhere, the fourth face at the apex is given the index 15 in a
  list of 15 vertices. On the dihedron, well-formed with two faces at every vertex, the
  faces of the vertices have two vertices only. On the octahedron, well-formed with four
  faces at every vertex, the adjacency that lists the faces by ascending index instead of
  in cyclic order leaves the edge from 1 to 2 of the first vertex face on that face alone.
\<close>

theorem utilities_invariants_counterexample:
  "wellFormed squarePyramid \<and> consistent squarePyramid squarePyramidAdjacency
   \<and> coherent squarePyramid squarePyramidAdjacency
   \<and> duplicateVertices squarePyramidAdjacency squarePyramid None
       = Inr \<lparr>vertices = [''b0'', ''b0'', ''b0'', ''b1'', ''b1'', ''b1'', ''b2'', ''b2'', ''b2'',
                          ''b3'', ''b3'', ''b3'', ''apex'', ''apex'', ''apex''],
              faces = [[9, 6, 3, 0], [1, 5, 12], [4, 8, 13], [7, 11, 14], [10, 2, 15],
                       [0, 1, 2], [3, 4, 5], [6, 7, 8], [9, 10, 11], [12, 13, 14],
                       [3, 0, 1, 5], [6, 3, 4, 8], [9, 6, 7, 11], [0, 9, 10, 2],
                       [15, 2, 1, 12], [12, 5, 4, 13], [13, 8, 7, 14], [14, 11, 10, 15]]\<rparr>
   \<and> \<not> validFaces \<lparr>vertices = [''b0'', ''b0'', ''b0'', ''b1'', ''b1'', ''b1'', ''b2'', ''b2'', ''b2'',
                          ''b3'', ''b3'', ''b3'', ''apex'', ''apex'', ''apex''],
              faces = [[9, 6, 3, 0], [1, 5, 12], [4, 8, 13], [7, 11, 14], [10, 2, 15],
                       [0, 1, 2], [3, 4, 5], [6, 7, 8], [9, 10, 11], [12, 13, 14],
                       [3, 0, 1, 5], [6, 3, 4, 8], [9, 6, 7, 11], [0, 9, 10, 2],
                       [15, 2, 1, 12], [12, 5, 4, 13], [13, 8, 7, 14], [14, 11, 10, 15]]\<rparr>
   \<and> wellFormed flatOctahedron
   \<and> deduplicateVertices (=) flatOctahedron
       = Inr \<lparr>vertices = [0, 1, 2, 3, 7],
              faces = [[0, 1, 4], [1, 2, 4], [2, 3, 4], [3, 0, 4],
                       [1, 0, 4], [2, 1, 4], [3, 2, 4], [0, 3, 4]]\<rparr>
   \<and> facesAtEdge [[0, 1, 4], [1, 2, 4], [2, 3, 4], [3, 0, 4],
                   [1, 0, 4], [2, 1, 4], [3, 2, 4], [0, 3, 4 :: nat]] (1, 4) = 4
   \<and> \<not> closedManifold \<lparr>vertices = [0, 1, 2, 3, 7 :: nat],
              faces = [[0, 1, 4], [1, 2, 4], [2, 3, 4], [3, 0, 4],
                       [1, 0, 4], [2, 1, 4], [3, 2, 4], [0, 3, 4]]\<rparr>
   \<and> wellFormed dihedron \<and> consistent dihedron dihedronAdjacency
   \<and> map (\<lambda>v. length (adjacentFaces dihedronAdjacency v)) [0..<length (vertices dihedron)]
       = [2, 2, 2]
   \<and> duplicateVertices dihedronAdjacency dihedron None
       = Inr \<lparr>vertices = [''a'', ''a'', ''b'', ''b'', ''c'', ''c''],
              faces = [[0, 2, 4], [5, 3, 1], [0, 1], [2, 3], [4, 5],
                       [2, 0, 1, 3], [4, 2, 3, 5], [0, 4, 5, 1]]\<rparr>
   \<and> \<not> threeDistinct \<lparr>vertices = [''a'', ''a'', ''b'', ''b'', ''c'', ''c''],
              faces = [[0, 2, 4], [5, 3, 1], [0, 1], [2, 3], [4, 5],
                       [2, 0, 1, 3], [4, 2, 3, 5], [0, 4, 5, 1]]\<rparr>
   \<and> wellFormed octahedron \<and> consistent octahedron octahedronSortedAdjacency
   \<and> map (\<lambda>v. length (adjacentFaces octahedronSortedAdjacency v))
         [0..<length (vertices octahedron)] = [4, 4, 4, 4, 4, 4]
   \<and> \<not> coherent octahedron octahedronSortedAdjacency
   \<and> duplicateVertices octahedronSortedAdjacency octahedron None
       = Inr \<lparr>vertices = [''e0'', ''e0'', ''e0'', ''e0'', ''e1'', ''e1'', ''e1'', ''e1'',
                          ''e2'', ''e2'', ''e2'', ''e2'', ''e3'', ''e3'', ''e3'', ''e3'',
                          ''top'', ''top'', ''top'', ''top'',
                          ''bottom'', ''bottom'', ''bottom'', ''bottom''],
              faces = [[0, 4, 16], [5, 8, 17], [9, 12, 18], [13, 1, 19], [6, 2, 20],
                       [10, 7, 21], [14, 11, 22], [3, 15, 23], [0, 1, 2, 3],
                       [4, 5, 6, 7], [8, 9, 10, 11], [12, 13, 14, 15], [16, 17, 18, 19],
                       [20, 21, 22, 23], [4, 0, 2, 6], [8, 5, 7, 10], [12, 9, 11, 14],
                       [1, 13, 15, 3], [16, 0, 1, 19], [16, 4, 5, 17], [17, 8, 9, 18],
                       [18, 12, 13, 19], [20, 2, 3, 23], [20, 6, 7, 21],
                       [21, 10, 11, 22], [22, 14, 15, 23]]\<rparr>
   \<and> facesAtEdge [[0, 4, 16], [5, 8, 17], [9, 12, 18], [13, 1, 19], [6, 2, 20],
                       [10, 7, 21], [14, 11, 22], [3, 15, 23], [0, 1, 2, 3],
                       [4, 5, 6, 7], [8, 9, 10, 11], [12, 13, 14, 15], [16, 17, 18, 19],
                       [20, 21, 22, 23], [4, 0, 2, 6], [8, 5, 7, 10], [12, 9, 11, 14],
                       [1, 13, 15, 3], [16, 0, 1, 19], [16, 4, 5, 17], [17, 8, 9, 18],
                       [18, 12, 13, 19], [20, 2, 3, 23], [20, 6, 7, 21],
                       [21, 10, 11, 22], [22, 14, 15, 23 :: nat]] (1, 2) = 1"
proof -
  have pyramid: "wellFormed squarePyramid" "consistent squarePyramid squarePyramidAdjacency"
    "coherent squarePyramid squarePyramidAdjacency"
    "duplicateVertices squarePyramidAdjacency squarePyramid None
       = Inr \<lparr>vertices = [''b0'', ''b0'', ''b0'', ''b1'', ''b1'', ''b1'', ''b2'', ''b2'', ''b2'',
                          ''b3'', ''b3'', ''b3'', ''apex'', ''apex'', ''apex''],
              faces = [[9, 6, 3, 0], [1, 5, 12], [4, 8, 13], [7, 11, 14], [10, 2, 15],
                       [0, 1, 2], [3, 4, 5], [6, 7, 8], [9, 10, 11], [12, 13, 14],
                       [3, 0, 1, 5], [6, 3, 4, 8], [9, 6, 7, 11], [0, 9, 10, 2],
                       [15, 2, 1, 12], [12, 5, 4, 13], [13, 8, 7, 14], [14, 11, 10, 15]]\<rparr>"
    "\<not> validFaces \<lparr>vertices = [''b0'', ''b0'', ''b0'', ''b1'', ''b1'', ''b1'', ''b2'', ''b2'', ''b2'',
                          ''b3'', ''b3'', ''b3'', ''apex'', ''apex'', ''apex''],
              faces = [[9, 6, 3, 0], [1, 5, 12], [4, 8, 13], [7, 11, 14], [10, 2, 15],
                       [0, 1, 2], [3, 4, 5], [6, 7, 8], [9, 10, 11], [12, 13, 14],
                       [3, 0, 1, 5], [6, 3, 4, 8], [9, 6, 7, 11], [0, 9, 10, 2],
                       [15, 2, 1, 12], [12, 5, 4, 13], [13, 8, 7, 14], [14, 11, 10, 15]]\<rparr>"
    by code_simp+
  have flat: "wellFormed flatOctahedron"
    "deduplicateVertices (=) flatOctahedron
       = Inr \<lparr>vertices = [0, 1, 2, 3, 7],
              faces = [[0, 1, 4], [1, 2, 4], [2, 3, 4], [3, 0, 4],
                       [1, 0, 4], [2, 1, 4], [3, 2, 4], [0, 3, 4]]\<rparr>"
    "facesAtEdge [[0, 1, 4], [1, 2, 4], [2, 3, 4], [3, 0, 4],
                   [1, 0, 4], [2, 1, 4], [3, 2, 4], [0, 3, 4 :: nat]] (1, 4) = 4"
    "\<not> closedManifold \<lparr>vertices = [0, 1, 2, 3, 7 :: nat],
              faces = [[0, 1, 4], [1, 2, 4], [2, 3, 4], [3, 0, 4],
                       [1, 0, 4], [2, 1, 4], [3, 2, 4], [0, 3, 4]]\<rparr>"
    by code_simp+
  have two: "wellFormed dihedron" "consistent dihedron dihedronAdjacency"
    "map (\<lambda>v. length (adjacentFaces dihedronAdjacency v)) [0..<length (vertices dihedron)]
       = [2, 2, 2]"
    "duplicateVertices dihedronAdjacency dihedron None
       = Inr \<lparr>vertices = [''a'', ''a'', ''b'', ''b'', ''c'', ''c''],
              faces = [[0, 2, 4], [5, 3, 1], [0, 1], [2, 3], [4, 5],
                       [2, 0, 1, 3], [4, 2, 3, 5], [0, 4, 5, 1]]\<rparr>"
    "\<not> threeDistinct \<lparr>vertices = [''a'', ''a'', ''b'', ''b'', ''c'', ''c''],
              faces = [[0, 2, 4], [5, 3, 1], [0, 1], [2, 3], [4, 5],
                       [2, 0, 1, 3], [4, 2, 3, 5], [0, 4, 5, 1]]\<rparr>"
    by code_simp+
  have sorted: "wellFormed octahedron" "consistent octahedron octahedronSortedAdjacency"
    "map (\<lambda>v. length (adjacentFaces octahedronSortedAdjacency v))
         [0..<length (vertices octahedron)] = [4, 4, 4, 4, 4, 4]"
    "\<not> coherent octahedron octahedronSortedAdjacency"
    "duplicateVertices octahedronSortedAdjacency octahedron None
       = Inr \<lparr>vertices = [''e0'', ''e0'', ''e0'', ''e0'', ''e1'', ''e1'', ''e1'', ''e1'',
                          ''e2'', ''e2'', ''e2'', ''e2'', ''e3'', ''e3'', ''e3'', ''e3'',
                          ''top'', ''top'', ''top'', ''top'',
                          ''bottom'', ''bottom'', ''bottom'', ''bottom''],
              faces = [[0, 4, 16], [5, 8, 17], [9, 12, 18], [13, 1, 19], [6, 2, 20],
                       [10, 7, 21], [14, 11, 22], [3, 15, 23], [0, 1, 2, 3],
                       [4, 5, 6, 7], [8, 9, 10, 11], [12, 13, 14, 15], [16, 17, 18, 19],
                       [20, 21, 22, 23], [4, 0, 2, 6], [8, 5, 7, 10], [12, 9, 11, 14],
                       [1, 13, 15, 3], [16, 0, 1, 19], [16, 4, 5, 17], [17, 8, 9, 18],
                       [18, 12, 13, 19], [20, 2, 3, 23], [20, 6, 7, 21],
                       [21, 10, 11, 22], [22, 14, 15, 23]]\<rparr>"
    "facesAtEdge [[0, 4, 16], [5, 8, 17], [9, 12, 18], [13, 1, 19], [6, 2, 20],
                       [10, 7, 21], [14, 11, 22], [3, 15, 23], [0, 1, 2, 3],
                       [4, 5, 6, 7], [8, 9, 10, 11], [12, 13, 14, 15], [16, 17, 18, 19],
                       [20, 21, 22, 23], [4, 0, 2, 6], [8, 5, 7, 10], [12, 9, 11, 14],
                       [1, 13, 15, 3], [16, 0, 1, 19], [16, 4, 5, 17], [17, 8, 9, 18],
                       [18, 12, 13, 19], [20, 2, 3, 23], [20, 6, 7, 21],
                       [21, 10, 11, 22], [22, 14, 15, 23 :: nat]] (1, 2) = 1"
    by code_simp+
  show ?thesis
    using pyramid flat two sorted by (intro conjI)
qed


end
